theory Spec2Isabelle
  imports Main "HOL-Library.AList"
begin

section \<open>JavaScript values\<close>

text \<open>
  The data handled by the repository is untyped at run time (the TypeScript interfaces
  \<^verbatim>\<open>BusinessData\<close>, \<^verbatim>\<open>FormData\<close>, \<^verbatim>\<open>PaymentDetails\<close> are erased and several of
  their fields are declared \<^verbatim>\<open>any\<close>), and the code works on it with spreads,
  \<^verbatim>\<open>Object.entries\<close> and \<^verbatim>\<open>Object.assign\<close>. Values are therefore modelled by one
  datatype. An object is the list of its own enumerable properties in property order;
  \<open>JInst c ps\<close> is an object that is an instance of a class \<open>c\<close> (a Firestore
  \<^verbatim>\<open>Timestamp\<close>, a \<^verbatim>\<open>FieldValue\<close>, a \<^verbatim>\<open>File\<close>) with own enumerable properties
  \<open>ps\<close>. Numbers are modelled by the integers together with \<^verbatim>\<open>NaN\<close> (\<open>number\<close>),
  strings by byte strings (the UTF-8 encoding of the JavaScript string).
\<close>

datatype number = Finite int | NaN

datatype jsval =
    JUndefined
  | JNull
  | JBool bool
  | JNum number
  | JStr string
  | JArr "jsval list"
  | JObj "(string \<times> jsval) list"
  | JInst string "(string \<times> jsval) list"

type_synonym props = "(string \<times> jsval) list"

text \<open>Reading a property of a plain object: \<^verbatim>\<open>o[k]\<close>, \<^verbatim>\<open>undefined\<close> when absent.\<close>

definition field :: "props \<Rightarrow> string \<Rightarrow> jsval" where
  "field ps k = (case map_of ps k of None \<Rightarrow> JUndefined | Some v \<Rightarrow> v)"

text \<open>
  Assigning the properties of \<open>src\<close> to \<open>target\<close> one after the other, as an object
  spread \<^verbatim>\<open>{ ...src }\<close> into a literal and \<^verbatim>\<open>Object.assign\<close> do. An assignment
  \<^verbatim>\<open>target[key] = val\<close> is \<open>AList.update\<close>: it replaces the value of an existing
  property in place and appends a new property.
\<close>

definition spread :: "props \<Rightarrow> props \<Rightarrow> props" where
  "spread src target = fold (\<lambda>(key, val). AList.update key val) src target"

section \<open>Data access layer (src/utils/firebase.ts)\<close>

subsection \<open>cleanFirestoreData\<close>

text \<open>
  \<^verbatim>\<open>
  const cleanFirestoreData = (data: any): any => {
    if (Array.isArray(data)) { return data.map(cleanFirestoreData); }
    if (data !== null && typeof data === 'object') {
      return Object.entries(data).reduce((acc, [key, value]) => {
        if (value !== undefined) { acc[key] = cleanFirestoreData(value); }
        return acc;
      }, {} as Record<string, any>);
    }
    return data;
  };
  \<close>
  A class instance passes the \<^verbatim>\<open>typeof data === 'object'\<close> test too and comes out as
  a plain object.
\<close>

fun cleanFirestoreData :: "jsval \<Rightarrow> jsval" where
  "cleanFirestoreData (JArr xs) = JArr (map cleanFirestoreData xs)"
| "cleanFirestoreData (JObj kvs) =
     JObj (fold (\<lambda>(key, val) acc.
                   if val \<noteq> JUndefined then AList.update key (cleanFirestoreData val) acc
                   else acc)
                kvs [])"
| "cleanFirestoreData (JInst c kvs) =
     JObj (fold (\<lambda>(key, val) acc.
                   if val \<noteq> JUndefined then AList.update key (cleanFirestoreData val) acc
                   else acc)
                kvs [])"
| "cleanFirestoreData v = v"

subsection \<open>The document store\<close>

text \<open>
  Documents live at \<^verbatim>\<open>users/{userId}/businesses/{businessId}\<close>; the store maps the pair
  of identifiers to the document body. The Firestore SDK itself is not part of the
  repository. Its two write operations are modelled by what the repository relies on:
  \<^verbatim>\<open>setDoc\<close> replaces the document, \<^verbatim>\<open>updateDoc\<close> fails on a missing document and
  otherwise overwrites the top-level fields it is given, keeping the others. Whether the
  SDK accepts the data it is handed is a parameter \<open>ok\<close> of the model (the SDK validates
  data before anything is written).
\<close>

type_synonym docref = "string \<times> string"
type_synonym store = "docref \<Rightarrow> jsval option"
type_synonym validator = "jsval \<Rightarrow> bool"

datatype dal_error =
    DraftNotFound     \<comment> \<open>\<^verbatim>\<open>new Error("Business draft not found")\<close>\<close>
  | NoSuchDocument    \<comment> \<open>\<^verbatim>\<open>updateDoc\<close> on a document that does not exist\<close>
  | InvalidData       \<comment> \<open>the SDK refused the data\<close>

definition setDoc :: "validator \<Rightarrow> store \<Rightarrow> docref \<Rightarrow> jsval \<Rightarrow> dal_error + store" where
  "setDoc ok st r d = (if ok d then Inr (st(r \<mapsto> d)) else Inl InvalidData)"

fun own_props :: "jsval \<Rightarrow> props" where
  "own_props (JObj kvs) = kvs"
| "own_props (JInst c kvs) = kvs"
| "own_props v = []"

definition merge_fields :: "jsval \<Rightarrow> jsval \<Rightarrow> jsval" where
  "merge_fields old d = JObj (spread (own_props d) (own_props old))"

definition updateDoc :: "validator \<Rightarrow> store \<Rightarrow> docref \<Rightarrow> jsval \<Rightarrow> dal_error + store" where
  "updateDoc ok st r d =
     (if \<not> ok d then Inl InvalidData
      else case st r of
             None \<Rightarrow> Inl NoSuchDocument
           | Some old \<Rightarrow> Inr (st(r \<mapsto> merge_fields old d)))"

subsection \<open>saveBusinessDraft, completeBusinessRegistration, getBusinessDraft, updateBusiness\<close>

text \<open>
  \<^verbatim>\<open>
  const newBusinessDocRef = doc(businessesCollectionRef);
  const formattedBusinessData = { ...businessData,
    createdAt: serverTimestamp(), updatedAt: serverTimestamp(), status: 'draft' };
  await setDoc(newBusinessDocRef, cleanFirestoreData(formattedBusinessData));
  return newBusinessDocRef.id;
  \<close>
  The identifier \<open>newId\<close> that \<^verbatim>\<open>doc(collection)\<close> generates and the value \<open>ts\<close> that
  \<^verbatim>\<open>serverTimestamp()\<close> returns come from the SDK and are parameters. A spread into a
  fresh literal assigns the properties of \<open>businessData\<close> to it one after the other
  (\<open>spread\<close>); the three properties written after it replace properties of the same
  name.
\<close>

definition formattedBusinessData :: "jsval \<Rightarrow> props \<Rightarrow> props" where
  "formattedBusinessData ts businessData =
     AList.update ''status'' (JStr ''draft'')
       (AList.update ''updatedAt'' ts
         (AList.update ''createdAt'' ts (spread businessData [])))"

definition saveBusinessDraft ::
  "validator \<Rightarrow> string \<Rightarrow> jsval \<Rightarrow> store \<Rightarrow> string \<Rightarrow> props \<Rightarrow> dal_error + (string \<times> store)" where
  "saveBusinessDraft ok newId ts st userId businessData =
     (case setDoc ok st (userId, newId)
             (cleanFirestoreData (JObj (formattedBusinessData ts businessData))) of
        Inl e \<Rightarrow> Inl e
      | Inr st' \<Rightarrow> Inr (newId, st'))"

text \<open>
  \<^verbatim>\<open>
  const now = Timestamp.now();
  const formattedPaymentDetails = { ...paymentDetails, createdAt: now };
  await updateDoc(businessDocRef, cleanFirestoreData({
    paymentDetails: formattedPaymentDetails, status: "completed", updatedAt: now }));
  return businessId;
  \<close>
  \<open>now\<close> is the value of \<^verbatim>\<open>Timestamp.now()\<close> at the call.
\<close>

definition completionData :: "jsval \<Rightarrow> props \<Rightarrow> jsval" where
  "completionData now paymentDetails =
     JObj [(''paymentDetails'', JObj (AList.update ''createdAt'' now (spread paymentDetails []))),
           (''status'', JStr ''completed''),
           (''updatedAt'', now)]"

definition completeBusinessRegistration ::
  "validator \<Rightarrow> jsval \<Rightarrow> store \<Rightarrow> string \<Rightarrow> string \<Rightarrow> props \<Rightarrow> dal_error + (string \<times> store)" where
  "completeBusinessRegistration ok now st userId businessId paymentDetails =
     (case updateDoc ok st (userId, businessId)
             (cleanFirestoreData (completionData now paymentDetails)) of
        Inl e \<Rightarrow> Inl e
      | Inr st' \<Rightarrow> Inr (businessId, st'))"


text \<open>
  \<^verbatim>\<open>
  const updatedData = { ...updateData, updatedAt: serverTimestamp() };
  await updateDoc(businessDocRef, cleanFirestoreData(updatedData));
  return businessId;
  \<close>
\<close>

definition updateBusiness ::
  "validator \<Rightarrow> jsval \<Rightarrow> store \<Rightarrow> string \<Rightarrow> string \<Rightarrow> props \<Rightarrow> dal_error + (string \<times> store)" where
  "updateBusiness ok ts st userId businessId updateData =
     (case updateDoc ok st (userId, businessId)
             (cleanFirestoreData (JObj (AList.update ''updatedAt'' ts (spread updateData [])))) of
        Inl e \<Rightarrow> Inl e
      | Inr st' \<Rightarrow> Inr (businessId, st'))"


subsection \<open>Sequences of operations\<close>

text \<open>
  A call of one of the three writing operations, with the values the environment
  supplies to it (the generated identifier, the server-timestamp sentinel, the clock
  reading), and the effect of a successful call on the store. A call that throws leaves
  the store as it was and is no step. The identifier that \<^verbatim>\<open>doc(collection)\<close>
  generates for a new draft is one no document of the collection has.
\<close>

datatype dal_call =
    CreateDraft string string jsval props
  | UpdateDraft string string jsval props
  | CompleteRegistration string string jsval props

inductive dal_step :: "validator \<Rightarrow> store \<Rightarrow> dal_call \<Rightarrow> store \<Rightarrow> bool" where
  create: "st (userId, newId) = None \<Longrightarrow>
           saveBusinessDraft ok newId ts st userId businessData = Inr (bid, st') \<Longrightarrow>
           dal_step ok st (CreateDraft userId newId ts businessData) st'"
| update: "updateBusiness ok ts st userId businessId updateData = Inr (bid, st') \<Longrightarrow>
           dal_step ok st (UpdateDraft userId businessId ts updateData) st'"
| complete: "completeBusinessRegistration ok now st userId businessId paymentDetails = Inr (bid, st') \<Longrightarrow>
           dal_step ok st (CompleteRegistration userId businessId now paymentDetails) st'"

inductive dal_run :: "validator \<Rightarrow> store \<Rightarrow> dal_call list \<Rightarrow> store \<Rightarrow> bool" where
  empty: "dal_run ok st [] st"
| call: "dal_step ok st c st1 \<Longrightarrow> dal_run ok st1 cs st' \<Longrightarrow> dal_run ok st (c # cs) st'"

text \<open>An update call whose partial fields carry a \<^verbatim>\<open>status\<close> property.\<close>

fun sets_status :: "dal_call \<Rightarrow> bool" where
  "sets_status (UpdateDraft userId businessId ts updateData) = (''status'' \<in> fst ` set updateData)"
| "sets_status c = False"

text \<open>
  The \<^verbatim>\<open>status\<close> of a document body. A body is in order when it is a draft, or is
  completed and has payment details; \<open>status_invariant\<close> says so of every document of
  a store. \<open>status_step s s'\<close> are the moves of the status field that the data model
  allows: none, or from draft to completed. \<open>all_clean\<close>: every body of the store is
  what \<^verbatim>\<open>cleanFirestoreData\<close> would make of it.
\<close>

definition status_of :: "jsval \<Rightarrow> jsval" where
  "status_of d = field (own_props d) ''status''"

definition draft_or_paid :: "jsval \<Rightarrow> bool" where
  "draft_or_paid d =
     (status_of d = JStr ''draft'' \<or>
      (status_of d = JStr ''completed'' \<and> field (own_props d) ''paymentDetails'' \<noteq> JUndefined))"

definition status_invariant :: "store \<Rightarrow> bool" where
  "status_invariant st = (\<forall>r d. st r = Some d \<longrightarrow> draft_or_paid d)"

definition status_step :: "jsval \<Rightarrow> jsval \<Rightarrow> bool" where
  "status_step s s' = (s' = s \<or> (s = JStr ''draft'' \<and> s' = JStr ''completed''))"



subsection \<open>Where the absent value can sit\<close>

text \<open>
  \<open>occurs_undefined v\<close>: \<^verbatim>\<open>undefined\<close> occurs somewhere in \<open>v\<close>, as \<open>v\<close> itself, as an
  element of an array or as the value of a property, at any depth.
  \<open>undefined_field v\<close>: some property of some object inside \<open>v\<close> (reached through arrays
  and objects, at any depth) holds \<^verbatim>\<open>undefined\<close>.
\<close>

fun occurs_undefined :: "jsval \<Rightarrow> bool" where
  "occurs_undefined JUndefined = True"
| "occurs_undefined (JArr xs) = (\<exists>x \<in> set xs. occurs_undefined x)"
| "occurs_undefined (JObj kvs) = (\<exists>kv \<in> set kvs. occurs_undefined (snd kv))"
| "occurs_undefined (JInst c kvs) = (\<exists>kv \<in> set kvs. occurs_undefined (snd kv))"
| "occurs_undefined v = False"


text \<open>The store that refuses every value in which \<^verbatim>\<open>undefined\<close> occurs, and the one
  that refuses nothing.\<close>

definition strict :: validator where
  "strict d = (\<not> occurs_undefined d)"


section \<open>Storage paths and download URLs (src/utils/firebase.ts)\<close>

text \<open>
  Strings are byte strings: a JavaScript string is modelled by its UTF-8 encoding.
  \<^verbatim>\<open>decodeURIComponent\<close>, \<^verbatim>\<open>encodeURIComponent\<close> and \<^verbatim>\<open>String.prototype.split\<close> are
  the language's own functions and are modelled after the ECMAScript definition.
  \<^verbatim>\<open>decodeURIComponent\<close> copies every character other than \<^verbatim>\<open>%\<close>; a \<^verbatim>\<open>%\<close> must be
  followed by two hexadecimal digits, and an escaped byte of 128 or more must start a
  run of escapes that is one well-formed UTF-8 sequence; anything else throws
  \<^verbatim>\<open>URIError\<close>.
\<close>

datatype js_error = URIError | TypeError | SyntaxError

definition hex_value :: "char \<Rightarrow> nat option" where
  "hex_value c =
     (let n = of_char c :: nat in
      if 48 \<le> n \<and> n \<le> 57 then Some (n - 48)
      else if 65 \<le> n \<and> n \<le> 70 then Some (n - 55)
      else if 97 \<le> n \<and> n \<le> 102 then Some (n - 87)
      else None)"

fun parse_escape :: "string \<Rightarrow> (nat \<times> string) option" where
  "parse_escape (c # h1 # h2 # rest) =
     (if c = CHR ''%'' then
        (case (hex_value h1, hex_value h2) of
           (Some a, Some b) \<Rightarrow> Some (16 * a + b, rest)
         | _ \<Rightarrow> None)
      else None)"
| "parse_escape s = None"

fun parse_escapes :: "nat \<Rightarrow> string \<Rightarrow> (nat list \<times> string) option" where
  "parse_escapes 0 s = Some ([], s)"
| "parse_escapes (Suc j) s =
     (case parse_escape s of
        None \<Rightarrow> None
      | Some (b, rest) \<Rightarrow>
          (case parse_escapes j rest of
             None \<Rightarrow> None
           | Some (bs, rest') \<Rightarrow> Some (b # bs, rest')))"

definition leading_ones :: "nat \<Rightarrow> nat" where
  "leading_ones b =
     (if b < 128 then 0 else if b < 192 then 1 else if b < 224 then 2
      else if b < 240 then 3 else if b < 248 then 4 else 5)"

definition continuation_byte :: "nat \<Rightarrow> bool" where
  "continuation_byte b = (128 \<le> b \<and> b \<le> 191)"

fun utf8_sequence :: "nat list \<Rightarrow> bool" where
  "utf8_sequence [b1, b2] = (194 \<le> b1 \<and> b1 \<le> 223 \<and> continuation_byte b2)"
| "utf8_sequence [b1, b2, b3] =
     (((b1 = 224 \<and> 160 \<le> b2 \<and> b2 \<le> 191) \<or>
       (225 \<le> b1 \<and> b1 \<le> 236 \<and> continuation_byte b2) \<or>
       (b1 = 237 \<and> 128 \<le> b2 \<and> b2 \<le> 159) \<or>
       (238 \<le> b1 \<and> b1 \<le> 239 \<and> continuation_byte b2)) \<and>
      continuation_byte b3)"
| "utf8_sequence [b1, b2, b3, b4] =
     (((b1 = 240 \<and> 144 \<le> b2 \<and> b2 \<le> 191) \<or>
       (241 \<le> b1 \<and> b1 \<le> 243 \<and> continuation_byte b2) \<or>
       (b1 = 244 \<and> 128 \<le> b2 \<and> b2 \<le> 143)) \<and>
      continuation_byte b3 \<and> continuation_byte b4)"
| "utf8_sequence bs = False"

lemma parse_escape_shorter: "parse_escape s = Some (b, rest) \<Longrightarrow> length rest < length s"
  by (induction s rule: parse_escape.induct) (auto split: if_splits option.splits)

lemma parse_escapes_shorter: "parse_escapes j s = Some (bs, rest) \<Longrightarrow> length rest \<le> length s"
proof (induction j arbitrary: s bs rest)
  case 0
  then show ?case by simp
next
  case (Suc j)
  then show ?case
    by (fastforce split: option.splits dest: parse_escape_shorter)
qed

definition prepend :: "string \<Rightarrow> js_error + string \<Rightarrow> js_error + string" where
  "prepend cs r = (case r of Inl e \<Rightarrow> Inl e | Inr s \<Rightarrow> Inr (cs @ s))"

function decodeURIComponent :: "string \<Rightarrow> js_error + string" where
  "decodeURIComponent [] = Inr []"
| "decodeURIComponent (c # cs) =
     (if c \<noteq> CHR ''%'' then prepend [c] (decodeURIComponent cs)
      else case parse_escape (c # cs) of
             None \<Rightarrow> Inl URIError
           | Some (b, rest) \<Rightarrow>
               if leading_ones b = 0 then prepend [char_of b] (decodeURIComponent rest)
               else if leading_ones b = 1 \<or> leading_ones b > 4 then Inl URIError
               else case parse_escapes (leading_ones b - 1) rest of
                      None \<Rightarrow> Inl URIError
                    | Some (bs, rest') \<Rightarrow>
                        if utf8_sequence (b # bs)
                        then prepend (map char_of (b # bs)) (decodeURIComponent rest')
                        else Inl URIError)"
  by pat_completeness auto
termination
proof (relation "measure length")
  show "wf (measure length)" by simp
next
  fix c :: char and cs
  show "(cs, c # cs) \<in> measure length" by simp
next
  fix c :: char and cs x2 b rest
  assume "parse_escape (c # cs) = Some x2" "(b, rest) = x2"
  then have "length rest < length (c # cs)"
    using parse_escape_shorter[of "c # cs" b rest] by simp
  then show "(rest, c # cs) \<in> measure length" by simp
next
  fix c :: char and cs x2 b rest x2a bs rest'
  assume "parse_escape (c # cs) = Some x2" "(b, rest) = x2"
    "parse_escapes (leading_ones b - 1) rest = Some x2a" "(bs, rest') = x2a"
  then have "length rest < length (c # cs)" "length rest' \<le> length rest"
    using parse_escape_shorter[of "c # cs" b rest]
      parse_escapes_shorter[of "leading_ones b - 1" rest bs rest'] by simp_all
  then show "(rest', c # cs) \<in> measure length" by simp
qed

text \<open>\<^verbatim>\<open>encodeURIComponent\<close> keeps letters, digits and \<^verbatim>\<open>- _ . ! ~ * ' ( )\<close> and
  escapes every other byte. A download URL, as the storage SDK hands it out, carries the
  encoded object path after \<^verbatim>\<open>/o/\<close> and before the query string.\<close>

definition unreserved :: "char \<Rightarrow> bool" where
  "unreserved c =
     (let n = of_char c :: nat in
      (65 \<le> n \<and> n \<le> 90) \<or> (97 \<le> n \<and> n \<le> 122) \<or> (48 \<le> n \<and> n \<le> 57) \<or>
      c \<in> set ''-_.!~*'()'')"

definition hex_digit :: "nat \<Rightarrow> char" where
  "hex_digit d = (if d < 10 then char_of (48 + d) else char_of (55 + d))"

definition encode_byte :: "char \<Rightarrow> string" where
  "encode_byte c =
     (if unreserved c then [c]
      else [CHR ''%'', hex_digit (of_char c div 16), hex_digit (of_char c mod 16)])"

definition encodeURIComponent :: "string \<Rightarrow> string" where
  "encodeURIComponent s = concat (map encode_byte s)"

definition downloadURL :: "string \<Rightarrow> string \<Rightarrow> string \<Rightarrow> string" where
  "downloadURL bucket path token =
     ''https://firebasestorage.googleapis.com/v0/b/'' @ bucket @ ''/o/'' @
     encodeURIComponent path @ ''?alt=media&token='' @ token"

text \<open>
  \<^verbatim>\<open>s.split(sep)\<close> for a non-empty separator: the pieces of \<open>s\<close> between the
  occurrences of \<open>sep\<close>, found from left to right without overlap; always at least one
  piece. \<open>contains sep s\<close>: \<open>sep\<close> occurs in \<open>s\<close>.
\<close>

function split_str :: "string \<Rightarrow> string \<Rightarrow> string list" where
  "split_str sep [] = [[]]"
| "split_str sep (c # cs) =
     (if sep \<noteq> [] \<and> take (length sep) (c # cs) = sep
      then [] # split_str sep (drop (length sep) (c # cs))
      else case split_str sep cs of
             p # ps \<Rightarrow> (c # p) # ps
           | [] \<Rightarrow> [[c]])"
  by pat_completeness auto
termination
  by (relation "measure (\<lambda>(sep, s). length s)") auto

fun contains :: "string \<Rightarrow> string \<Rightarrow> bool" where
  "contains sep [] = (sep = [])"
| "contains sep (c # cs) = (take (length sep) (c # cs) = sep \<or> contains sep cs)"

text \<open>
  \<^verbatim>\<open>
  export function getStoragePathFromUrl(url: string): string {
    const decodedUrl = decodeURIComponent(url);
    return decodedUrl.split('/o/')[1].split('?')[0];
  }
  \<close>
  \<open>secondPartBeforeQuery\<close> is the expression \<^verbatim>\<open>decodedUrl.split('/o/')[1].split('?')[0]\<close>,
  which \<^verbatim>\<open>deleteDocument\<close> repeats: element 1 of an array with a single element is
  \<^verbatim>\<open>undefined\<close>, and calling \<^verbatim>\<open>split\<close> on it throws \<^verbatim>\<open>TypeError\<close>. Element 0 of
  the second split always exists.
\<close>

definition secondPartBeforeQuery :: "string \<Rightarrow> js_error + string" where
  "secondPartBeforeQuery decodedUrl =
     (case split_str ''/o/'' decodedUrl of
        p0 # p1 # ps \<Rightarrow> Inr (hd (split_str ''?'' p1))
      | _ \<Rightarrow> Inl TypeError)"

definition getStoragePathFromUrl :: "string \<Rightarrow> js_error + string" where
  "getStoragePathFromUrl url =
     (case decodeURIComponent url of
        Inl e \<Rightarrow> Inl e
      | Inr decodedUrl \<Rightarrow> secondPartBeforeQuery decodedUrl)"

text \<open>
  \<^verbatim>\<open>
  export async function deleteDocument(documentUrl: string): Promise<void> {
    try {
      const decodedUrl = decodeURIComponent(documentUrl);
      const urlParts = decodedUrl.split('/o/')[1].split('?')[0];
      const storageRef = ref(storage, urlParts);
      await deleteObject(storageRef);
    } catch (error) {
      console.error("Error deleting document:", error);
      throw new Error("Failed to delete document");
    }
  }
  \<close>
  Object storage is the set of paths that hold an object, together with the list of
  paths for which a deletion has been requested, so that a deletion that was attempted
  can be told from one that was not. \<^verbatim>\<open>deleteObject\<close> of the storage SDK removes the
  object and fails when there is none.
\<close>

record storage =
  objects :: "string set"
  deletions :: "string list"

datatype storage_error = ObjectNotFound
datatype document_error = FailedToUpload | FailedToDelete

definition deleteObject :: "storage \<Rightarrow> string \<Rightarrow> (storage_error + unit) \<times> storage" where
  "deleteObject stg path =
     (if path \<in> objects stg
      then (Inr (), stg\<lparr>objects := objects stg - {path}, deletions := deletions stg @ [path]\<rparr>)
      else (Inl ObjectNotFound, stg\<lparr>deletions := deletions stg @ [path]\<rparr>))"

definition deleteDocument :: "storage \<Rightarrow> string \<Rightarrow> (document_error + unit) \<times> storage" where
  "deleteDocument stg documentUrl =
     (case decodeURIComponent documentUrl of
        Inl e \<Rightarrow> (Inl FailedToDelete, stg)
      | Inr decodedUrl \<Rightarrow>
          (case secondPartBeforeQuery decodedUrl of
             Inl e \<Rightarrow> (Inl FailedToDelete, stg)
           | Inr urlParts \<Rightarrow>
               (case deleteObject stg urlParts of
                  (Inl e, stg') \<Rightarrow> (Inl FailedToDelete, stg')
                | (Inr u, stg') \<Rightarrow> (Inr (), stg'))))"

section \<open>Registration wizard (the business page component)\<close>

subsection \<open>Numbers as text\<close>

text \<open>\<^verbatim>\<open>Number.prototype.toString\<close> on the numbers of the model: the decimal digits of an
  integer, with a minus sign when it is negative, and \<^verbatim>\<open>"NaN"\<close>.\<close>

definition digit_char :: "nat \<Rightarrow> char" where
  "digit_char d = char_of (48 + d)"

function digits :: "nat \<Rightarrow> string" where
  "digits n = (if n < 10 then [digit_char n] else digits (n div 10) @ [digit_char (n mod 10)])"
  by pat_completeness auto
termination
  by (relation "measure id") auto

definition number_toString :: "number \<Rightarrow> string" where
  "number_toString x =
     (case x of
        Finite i \<Rightarrow> (if i < 0 then CHR ''-'' # digits (nat (- i)) else digits (nat i))
      | NaN \<Rightarrow> ''NaN'')"

subsection \<open>JSON.stringify\<close>

text \<open>
  \<^verbatim>\<open>JSON.stringify\<close> after the ECMAScript definition. \<open>serialize\<close> is
  \<^verbatim>\<open>SerializeJSONProperty\<close>: \<^verbatim>\<open>undefined\<close> has no text (\<open>None\<close>); a property whose
  value has no text is left out of its object, an array element without text is written
  \<^verbatim>\<open>null\<close>, and so is \<^verbatim>\<open>NaN\<close>. A string is written between double quotes, with the
  quote, the backslash and the control characters escaped. A class instance is written
  with its own enumerable properties, like a plain object (a \<^verbatim>\<open>File\<close> has none and is
  written \<^verbatim>\<open>{}\<close>).
\<close>

definition hex_lower :: "nat \<Rightarrow> char" where
  "hex_lower d = (if d < 10 then char_of (48 + d) else char_of (87 + d))"

definition escape_char :: "char \<Rightarrow> string" where
  "escape_char c =
     (let n = of_char c :: nat in
      if n = 34 then [CHR 0x5C, CHR 0x22]
      else if n = 92 then [CHR 0x5C, CHR 0x5C]
      else if n = 8 then [CHR 0x5C, CHR ''b'']
      else if n = 9 then [CHR 0x5C, CHR ''t'']
      else if n = 10 then [CHR 0x5C, CHR ''n'']
      else if n = 12 then [CHR 0x5C, CHR ''f'']
      else if n = 13 then [CHR 0x5C, CHR ''r'']
      else if n < 32 then [CHR 0x5C, CHR ''u'', CHR ''0'', CHR ''0'', hex_lower (n div 16), hex_lower (n mod 16)]
      else [c])"

definition quoteJSONString :: "string \<Rightarrow> string" where
  "quoteJSONString s = CHR 0x22 # concat (map escape_char s) @ [CHR 0x22]"

fun join_comma :: "string list \<Rightarrow> string" where
  "join_comma [] = []"
| "join_comma [x] = x"
| "join_comma (x # y # ys) = x @ CHR '','' # join_comma (y # ys)"

fun serialize :: "jsval \<Rightarrow> string option" where
  "serialize JUndefined = None"
| "serialize JNull = Some ''null''"
| "serialize (JBool b) = Some (if b then ''true'' else ''false'')"
| "serialize (JNum x) = Some (case x of Finite i \<Rightarrow> number_toString x | NaN \<Rightarrow> ''null'')"
| "serialize (JStr s) = Some (quoteJSONString s)"
| "serialize (JArr xs) =
     Some (CHR ''['' # join_comma (map (\<lambda>x. case serialize x of None \<Rightarrow> ''null'' | Some t \<Rightarrow> t) xs)
           @ '']'')"
| "serialize (JObj kvs) =
     Some (CHR ''{'' # join_comma (concat (map (\<lambda>(key, val).
                case serialize val of
                  None \<Rightarrow> []
                | Some t \<Rightarrow> [quoteJSONString key @ CHR '':'' # t]) kvs))
           @ ''}'')"
| "serialize (JInst c kvs) =
     Some (CHR ''{'' # join_comma (concat (map (\<lambda>(key, val).
                case serialize val of
                  None \<Rightarrow> []
                | Some t \<Rightarrow> [quoteJSONString key @ CHR '':'' # t]) kvs))
           @ ''}'')"

definition JSON_stringify :: "jsval \<Rightarrow> string option" where
  "JSON_stringify v = serialize v"

subsection \<open>State and session storage\<close>

text \<open>
  The component's state: \<^verbatim>\<open>currentStep\<close>, \<^verbatim>\<open>formData\<close> and
  \<^verbatim>\<open>hasRegisteredBusiness\<close> (the three \<^verbatim>\<open>useState\<close> cells), the browser's
  \<^verbatim>\<open>sessionStorage\<close>, and the routes handed to \<^verbatim>\<open>router.push\<close>. The handlers run in
  the browser, where \<^verbatim>\<open>typeof window !== "undefined"\<close> holds. A handler is modelled as
  one transition of this state: the state updaters it queues are applied with the state
  the handler saw.
\<close>

definition stepKey :: string where
  "stepKey = ''businessRegistrationStep''"

definition dataKey :: string where
  "dataKey = ''businessRegistrationData''"

record wizard =
  currentStep :: number
  formData :: jsval
  hasRegisteredBusiness :: bool
  sessionStorage :: "string \<Rightarrow> string option"
  pushed :: "string list"

definition setItem :: "string \<Rightarrow> string \<Rightarrow> (string \<Rightarrow> string option) \<Rightarrow> (string \<Rightarrow> string option)" where
  "setItem key val storage = storage(key \<mapsto> val)"

definition removeItem :: "string \<Rightarrow> (string \<Rightarrow> string option) \<Rightarrow> (string \<Rightarrow> string option)" where
  "removeItem key storage = storage(key := None)"

definition text_of :: "string option \<Rightarrow> string" where
  "text_of t = (case t of None \<Rightarrow> ''undefined'' | Some s \<Rightarrow> s)"

definition initialWizard :: "(string \<Rightarrow> string option) \<Rightarrow> wizard" where
  "initialWizard storage =
     \<lparr> currentStep = Finite 1, formData = JObj [], hasRegisteredBusiness = False,
       sessionStorage = storage, pushed = [] \<rparr>"

subsection \<open>Reading the step data\<close>

text \<open>
  \<^verbatim>\<open>prev + 1\<close> and \<^verbatim>\<open>prev - 1\<close> on the numbers of the model. Reading a property of
  \<^verbatim>\<open>null\<close> or \<^verbatim>\<open>undefined\<close> throws \<^verbatim>\<open>TypeError\<close>; of any other value that is not an
  object the properties read here (\<^verbatim>\<open>name\<close>, \<^verbatim>\<open>price\<close>, ...) are \<^verbatim>\<open>undefined\<close>.
  \<open>pick src keys\<close> is the object literal \<^verbatim>\<open>{ k1: src.k1, k2: src.k2, ... }\<close>.
  \<open>enumerable_props\<close> are the properties that a spread and \<^verbatim>\<open>Object.assign\<close> copy
  from a value: those of an object, the indexed elements of an array and the indexed
  characters of a string, none of any other value.
\<close>

definition plus1 :: "number \<Rightarrow> number" where
  "plus1 x = (case x of Finite i \<Rightarrow> Finite (i + 1) | NaN \<Rightarrow> NaN)"

definition minus1 :: "number \<Rightarrow> number" where
  "minus1 x = (case x of Finite i \<Rightarrow> Finite (i - 1) | NaN \<Rightarrow> NaN)"

fun nullish :: "jsval \<Rightarrow> bool" where
  "nullish JUndefined = True"
| "nullish JNull = True"
| "nullish v = False"

fun getProp :: "jsval \<Rightarrow> string \<Rightarrow> jsval" where
  "getProp (JObj ps) k = field ps k"
| "getProp (JInst c ps) k = field ps k"
| "getProp v k = JUndefined"

definition pick :: "jsval \<Rightarrow> string list \<Rightarrow> js_error + jsval" where
  "pick src keys =
     (if nullish src then Inl TypeError
      else Inr (JObj (map (\<lambda>k. (k, getProp src k)) keys)))"

fun all_right :: "('e + 'a) list \<Rightarrow> 'e + 'a list" where
  "all_right [] = Inr []"
| "all_right (Inl e # rs) = Inl e"
| "all_right (Inr x # rs) = (case all_right rs of Inl e \<Rightarrow> Inl e | Inr xs \<Rightarrow> Inr (x # xs))"

fun enumerable_props :: "jsval \<Rightarrow> props" where
  "enumerable_props (JObj ps) = ps"
| "enumerable_props (JInst c ps) = ps"
| "enumerable_props (JArr xs) = zip (map digits [0..<length xs]) xs"
| "enumerable_props (JStr s) = zip (map digits [0..<length s]) (map (\<lambda>c. JStr [c]) s)"
| "enumerable_props v = []"

subsection \<open>handleNext\<close>

text \<open>
  \<^verbatim>\<open>
  const handleNext = (stepData: any) => {
    setFormData((prev) => {
      const newData = { ...prev }
      switch (currentStep) {
        case 1: newData.country = { name: stepData.name }; break
        case 2: newData.package = { name: stepData.name, price: stepData.price }; break
        case 3: newData.company = { name: stepData.name, type: stepData.type,
                                    industry: stepData.industry }; break
        case 4: newData.owner = stepData.map((owner: any) => ({
                  id: owner.id, fullName: owner.fullName, ownership: owner.ownership,
                  isCEO: owner.isCEO, birthDate: owner.birthDate, document: owner.document }))
                break
        case 5: newData.address = { street: stepData.street, city: stepData.city,
                  state: stepData.state, postalCode: stepData.postalCode,
                  country: stepData.country }; break
        default: Object.assign(newData, stepData)
      }
      sessionStorage.setItem("businessRegistrationData", JSON.stringify(newData))
      return newData
    })
    setCurrentStep((prev) => {
      const newStep = prev + 1
      sessionStorage.setItem("businessRegistrationStep", newStep.toString())
      return newStep
    })
  }
  \<close>
  \<open>mergeStep\<close> is the \<^verbatim>\<open>switch\<close>. At step 4 \<^verbatim>\<open>stepData.map\<close> is a function only when
  \<^verbatim>\<open>stepData\<close> is an array. \<^verbatim>\<open>setItem\<close> stores the text of its argument, which for
  \<^verbatim>\<open>undefined\<close> is \<^verbatim>\<open>"undefined"\<close> (\<open>text_of\<close>).
\<close>

definition mergeStep :: "number \<Rightarrow> jsval \<Rightarrow> props \<Rightarrow> js_error + props" where
  "mergeStep step stepData newData =
     (if step = Finite 1 then
        (case pick stepData [''name''] of
           Inl e \<Rightarrow> Inl e
         | Inr country \<Rightarrow> Inr (AList.update ''country'' country newData))
      else if step = Finite 2 then
        (case pick stepData [''name'', ''price''] of
           Inl e \<Rightarrow> Inl e
         | Inr package \<Rightarrow> Inr (AList.update ''package'' package newData))
      else if step = Finite 3 then
        (case pick stepData [''name'', ''type'', ''industry''] of
           Inl e \<Rightarrow> Inl e
         | Inr company \<Rightarrow> Inr (AList.update ''company'' company newData))
      else if step = Finite 4 then
        (case stepData of
           JArr owners \<Rightarrow>
             (case all_right (map (\<lambda>owner. pick owner
                       [''id'', ''fullName'', ''ownership'', ''isCEO'', ''birthDate'', ''document''])
                     owners) of
                Inl e \<Rightarrow> Inl e
              | Inr mapped \<Rightarrow> Inr (AList.update ''owner'' (JArr mapped) newData))
         | _ \<Rightarrow> Inl TypeError)
      else if step = Finite 5 then
        (case pick stepData [''street'', ''city'', ''state'', ''postalCode'', ''country''] of
           Inl e \<Rightarrow> Inl e
         | Inr address \<Rightarrow> Inr (AList.update ''address'' address newData))
      else Inr (spread (enumerable_props stepData) newData))"

definition handleNext :: "jsval \<Rightarrow> wizard \<Rightarrow> js_error + wizard" where
  "handleNext stepData w =
     (case mergeStep (currentStep w) stepData (spread (enumerable_props (formData w)) []) of
        Inl e \<Rightarrow> Inl e
      | Inr newData \<Rightarrow>
          Inr (w\<lparr> formData := JObj newData,
                 currentStep := plus1 (currentStep w),
                 sessionStorage :=
                   setItem stepKey (number_toString (plus1 (currentStep w)))
                     (setItem dataKey (text_of (JSON_stringify (JObj newData)))
                        (sessionStorage w)) \<rparr>))"

subsection \<open>handleBack, handleEdit, handlePaymentComplete and the Review step's onNext\<close>

text \<open>
  \<^verbatim>\<open>
  const handleBack = () => {
    if (currentStep === 1) { router.push("/dashboard/business") }
    else { setCurrentStep((prev) => { const newStep = prev - 1
             sessionStorage.setItem("businessRegistrationStep", newStep.toString())
             return newStep }) } }
  const handleEdit = (step: number) => {
    setCurrentStep(step)
    sessionStorage.setItem("businessRegistrationStep", step.toString()) }
  const handlePaymentComplete = () => {
    setHasRegisteredBusiness(true)
    setCurrentStep(8)
    sessionStorage.removeItem("businessRegistrationData")
    sessionStorage.removeItem("businessRegistrationStep") }
  // case 6:
  <Review data={formData as Required<FormData>} onNext={() => setCurrentStep(7)}
          onBack={handleBack} onEdit={handleEdit} />
  \<close>
\<close>

definition handleBack :: "wizard \<Rightarrow> wizard" where
  "handleBack w =
     (if currentStep w = Finite 1
      then w\<lparr> pushed := pushed w @ [''/dashboard/business''] \<rparr>
      else w\<lparr> currentStep := minus1 (currentStep w),
              sessionStorage := setItem stepKey (number_toString (minus1 (currentStep w)))
                                  (sessionStorage w) \<rparr>)"

definition handleEdit :: "number \<Rightarrow> wizard \<Rightarrow> wizard" where
  "handleEdit step w =
     w\<lparr> currentStep := step,
        sessionStorage := setItem stepKey (number_toString step) (sessionStorage w) \<rparr>"

definition handlePaymentComplete :: "wizard \<Rightarrow> wizard" where
  "handlePaymentComplete w =
     w\<lparr> hasRegisteredBusiness := True,
        currentStep := Finite 8,
        sessionStorage := removeItem stepKey (removeItem dataKey (sessionStorage w)) \<rparr>"

definition reviewOnNext :: "wizard \<Rightarrow> wizard" where
  "reviewOnNext w = w\<lparr> currentStep := Finite 7 \<rparr>"

subsection \<open>The per-step shape of the step data\<close>

text \<open>
  \<open>merged_field t\<close> is the field of the draft that step \<open>t\<close> writes, if any.
  \<open>accepted t stepData\<close>: the step data that the merge of step \<open>t\<close> takes without
  throwing (an object at steps 1, 2, 3 and 5, an array of objects at step 4; nothing
  more is asked of them), and at the steps that have no field of their own step data
  that carries no property.
\<close>

definition merged_field :: "int \<Rightarrow> string option" where
  "merged_field t =
     (if t = 1 then Some ''country'' else if t = 2 then Some ''package''
      else if t = 3 then Some ''company'' else if t = 4 then Some ''owner''
      else if t = 5 then Some ''address'' else None)"

definition accepted :: "int \<Rightarrow> jsval \<Rightarrow> bool" where
  "accepted t stepData =
     (if t = 1 \<or> t = 2 \<or> t = 3 \<or> t = 5 then \<not> nullish stepData
      else if t = 4 then (case stepData of JArr owners \<Rightarrow> list_all (\<lambda>owner. \<not> nullish owner) owners
                           | _ \<Rightarrow> False)
      else enumerable_props stepData = [])"

subsection \<open>JSON.parse\<close>

text \<open>
  \<^verbatim>\<open>JSON.parse\<close> after the JSON grammar, on the values of the model. A call has one of
  three outcomes: a value, a thrown error (\<^verbatim>\<open>SyntaxError\<close> for a text that is not JSON),
  or \<open>Unmodelled\<close> for a text whose value the model has no term for: a number with a
  fraction or an exponent, and a four-digit escape of a code unit above 127.
  White space is tab, line feed, carriage return and space.
\<close>

datatype 'a outcome = Ok 'a | Throws js_error | Unmodelled

definition is_ws :: "char \<Rightarrow> bool" where
  "is_ws c = (of_char c \<in> {9, 10, 13, 32 :: nat})"

definition is_digit :: "char \<Rightarrow> bool" where
  "is_digit c = (48 \<le> (of_char c :: nat) \<and> (of_char c :: nat) \<le> 57)"

definition digits_value :: "string \<Rightarrow> nat" where
  "digits_value ds = foldl (\<lambda>a c. 10 * a + (of_char c - 48)) 0 ds"

fun skip_ws :: "string \<Rightarrow> string" where
  "skip_ws [] = []"
| "skip_ws (c # cs) = (if is_ws c then skip_ws cs else c # cs)"

definition consChar :: "char \<Rightarrow> (string \<times> string) outcome \<Rightarrow> (string \<times> string) outcome" where
  "consChar c r = (case r of Ok (s, rest) \<Rightarrow> Ok (c # s, rest) | Throws e \<Rightarrow> Throws e | Unmodelled \<Rightarrow> Unmodelled)"

definition hex4 :: "string \<Rightarrow> (nat \<times> string) option" where
  "hex4 s =
     (case s of
        h1 # h2 # h3 # h4 # rest \<Rightarrow>
          (case hex_value h1 of None \<Rightarrow> None | Some a \<Rightarrow>
           case hex_value h2 of None \<Rightarrow> None | Some b \<Rightarrow>
           case hex_value h3 of None \<Rightarrow> None | Some c \<Rightarrow>
           case hex_value h4 of None \<Rightarrow> None | Some d \<Rightarrow>
             Some (4096 * a + 256 * b + 16 * c + d, rest))
      | _ \<Rightarrow> None)"

definition unescape :: "string \<Rightarrow> (char \<times> string) outcome" where
  "unescape s =
     (case s of
        [] \<Rightarrow> Throws SyntaxError
      | e # rest \<Rightarrow>
          if e = CHR 0x22 \<or> e = CHR 0x5C \<or> e = CHR ''/'' then Ok (e, rest)
          else if e = CHR ''b'' then Ok (CHR 0x08, rest)
          else if e = CHR ''f'' then Ok (CHR 0x0C, rest)
          else if e = CHR ''n'' then Ok (CHR 0x0A, rest)
          else if e = CHR ''r'' then Ok (CHR 0x0D, rest)
          else if e = CHR ''t'' then Ok (CHR 0x09, rest)
          else if e = CHR ''u'' then
            (case hex4 rest of
               None \<Rightarrow> Throws SyntaxError
             | Some (n, rest') \<Rightarrow> if n < 128 then Ok (char_of n, rest') else Unmodelled)
          else Throws SyntaxError)"

text \<open>The characters of a string, after its opening quote, up to the closing quote. An
  escape consumes at least one character, which is what the recursion needs.\<close>

lemma hex4_length: "hex4 s = Some (n, rest) \<Longrightarrow> length s = length rest + 4"
  unfolding hex4_def
  by (cases s; cases "tl s"; cases "tl (tl s)"; cases "tl (tl (tl s))")
     (auto split: option.splits)

lemma unescape_length: "unescape s = Ok (ch, rest) \<Longrightarrow> length rest < length s"
proof (cases s)
  case Nil
  then show "unescape s = Ok (ch, rest) \<Longrightarrow> length rest < length s"
    by (simp add: unescape_def)
next
  case (Cons e r)
  assume u: "unescape s = Ok (ch, rest)"
  show "length rest < length s"
  proof (cases "e = CHR ''u''")
    case True
    with u Cons obtain n where "hex4 r = Some (n, rest)"
      by (auto simp: unescape_def split: option.splits if_splits)
    from hex4_length[OF this] Cons show ?thesis by simp
  next
    case False
    with u Cons have "rest = r"
      by (simp add: unescape_def split: if_splits)
    with Cons show ?thesis by simp
  qed
qed

function parse_chars :: "string \<Rightarrow> (string \<times> string) outcome" where
  "parse_chars [] = Throws SyntaxError"
| "parse_chars (c # cs) =
     (if c = CHR 0x22 then Ok ([], cs)
      else if c = CHR 0x5C then
        (case unescape cs of
           Ok (ch, rest) \<Rightarrow> consChar ch (parse_chars rest)
         | Throws e \<Rightarrow> Throws e
         | Unmodelled \<Rightarrow> Unmodelled)
      else if (of_char c :: nat) < 32 then Throws SyntaxError
      else consChar c (parse_chars cs))"
  by pat_completeness auto
termination
proof (relation "measure length", goal_cases)
  case 1
  then show ?case by simp
next
  case (2 c cs x1 ch rest)
  then show ?case using unescape_length[of cs ch rest] by simp
next
  case (3 c cs)
  then show ?case by simp
qed

text \<open>A number: an optional minus sign and decimal digits, with no leading zero.\<close>

definition parse_number :: "string \<Rightarrow> (jsval \<times> string) outcome" where
  "parse_number s =
     (let negative = (s \<noteq> [] \<and> hd s = CHR ''-'');
          s1 = (if negative then tl s else s);
          ds = takeWhile is_digit s1;
          rest = dropWhile is_digit s1
      in if ds = [] then Throws SyntaxError
         else if length ds > 1 \<and> hd ds = CHR ''0'' then Throws SyntaxError
         else if rest \<noteq> [] \<and> hd rest \<in> set ''.eE'' then Unmodelled
         else Ok (JNum (Finite (if negative then - int (digits_value ds) else int (digits_value ds))),
                  rest))"

lemma skip_ws_length [simp]: "length (skip_ws s) \<le> length s"
  by (induction s) auto

lemma skip_ws_Cons_length: "skip_ws s = d # rest \<Longrightarrow> length rest < length s"
  using skip_ws_length[of s] by simp

lemma consChar_Ok:
  "consChar c r = Ok (str, rest) \<Longrightarrow> \<exists>str'. r = Ok (str', rest) \<and> str = c # str'"
  by (cases r) (auto simp: consChar_def)

lemma parse_chars_length: "parse_chars s = Ok (str, rest) \<Longrightarrow> length rest < length s"
proof (induction s arbitrary: str rest rule: parse_chars.induct)
  case 1
  then show ?case by simp
next
  case (2 c cs)
  show ?case
  proof (cases "c = CHR 0x22")
    case True
    with 2(3) show ?thesis by simp
  next
    case q: False
    show ?thesis
    proof (cases "c = CHR 0x5C")
      case True
      with q 2(3) obtain ch r where u: "unescape cs = Ok (ch, r)"
        and p: "consChar ch (parse_chars r) = Ok (str, rest)"
        by (auto split: outcome.splits)
      from consChar_Ok[OF p] obtain str' where "parse_chars r = Ok (str', rest)" by blast
      from 2(1)[OF q True u refl this] unescape_length[OF u] show ?thesis by simp
    next
      case False
      with q 2(3) have lo: "\<not> (of_char c :: nat) < 32"
        and p: "consChar c (parse_chars cs) = Ok (str, rest)"
        by (auto split: if_splits)
      from consChar_Ok[OF p] obtain str' where "parse_chars cs = Ok (str', rest)" by blast
      from 2(2)[OF q False lo this] show ?thesis by simp
    qed
  qed
qed

text \<open>
  Values, the elements of an array after its opening bracket, and the members of an
  object after its opening brace. A later member with the key of an earlier one
  replaces its value (\<open>spread\<close> onto the empty object). The elements and the members
  that follow a comma are read from a text that is shorter than the one the function
  was given; the definition tests this, to make the recursion well founded, and lemma
  \<open>parse_length\<close> below shows that the test never fails.
\<close>

function parse_value :: "string \<Rightarrow> (jsval \<times> string) outcome"
     and parse_elements :: "string \<Rightarrow> (jsval list \<times> string) outcome"
     and parse_members :: "string \<Rightarrow> (props \<times> string) outcome" where
  "parse_value [] = Throws SyntaxError"
| "parse_value (c # cs) =
     (if is_ws c then parse_value cs
      else if c = CHR ''{'' then
        (case skip_ws cs of
           [] \<Rightarrow> Throws SyntaxError
         | d # rest \<Rightarrow>
             if d = CHR ''}'' then Ok (JObj [], rest)
             else (case parse_members (d # rest) of
                     Ok (kvs, rest') \<Rightarrow> Ok (JObj (spread kvs []), rest')
                   | Throws e \<Rightarrow> Throws e
                   | Unmodelled \<Rightarrow> Unmodelled))
      else if c = CHR ''['' then
        (case skip_ws cs of
           [] \<Rightarrow> Throws SyntaxError
         | d # rest \<Rightarrow>
             if d = CHR '']'' then Ok (JArr [], rest)
             else (case parse_elements (d # rest) of
                     Ok (xs, rest') \<Rightarrow> Ok (JArr xs, rest')
                   | Throws e \<Rightarrow> Throws e
                   | Unmodelled \<Rightarrow> Unmodelled))
      else if c = CHR 0x22 then
        (case parse_chars cs of
           Ok (str, rest) \<Rightarrow> Ok (JStr str, rest)
         | Throws e \<Rightarrow> Throws e
         | Unmodelled \<Rightarrow> Unmodelled)
      else if c = CHR ''-'' \<or> is_digit c then parse_number (c # cs)
      else if take 4 (c # cs) = ''true'' then Ok (JBool True, drop 4 (c # cs))
      else if take 5 (c # cs) = ''false'' then Ok (JBool False, drop 5 (c # cs))
      else if take 4 (c # cs) = ''null'' then Ok (JNull, drop 4 (c # cs))
      else Throws SyntaxError)"
| "parse_elements s =
     (case parse_value s of
        Ok (v, rest) \<Rightarrow>
          (case skip_ws rest of
             [] \<Rightarrow> Throws SyntaxError
           | d # rest' \<Rightarrow>
               if d = CHR '']'' then Ok ([v], rest')
               else if d = CHR '','' then
                 (if length rest' < length s then
                    (case parse_elements rest' of
                       Ok (vs, rest'') \<Rightarrow> Ok (v # vs, rest'')
                     | Throws e \<Rightarrow> Throws e
                     | Unmodelled \<Rightarrow> Unmodelled)
                  else Unmodelled)
               else Throws SyntaxError)
      | Throws e \<Rightarrow> Throws e
      | Unmodelled \<Rightarrow> Unmodelled)"
| "parse_members s =
     (case skip_ws s of
        [] \<Rightarrow> Throws SyntaxError
      | q # cs \<Rightarrow>
          if q \<noteq> CHR 0x22 then Throws SyntaxError
          else (case parse_chars cs of
                  Ok (key, rest) \<Rightarrow>
                    (case skip_ws rest of
                       [] \<Rightarrow> Throws SyntaxError
                     | d # rest1 \<Rightarrow>
                         if d \<noteq> CHR '':'' then Throws SyntaxError
                         else (case parse_value rest1 of
                                 Ok (v, rest2) \<Rightarrow>
                                   (case skip_ws rest2 of
                                      [] \<Rightarrow> Throws SyntaxError
                                    | d' # rest3 \<Rightarrow>
                                        if d' = CHR ''}'' then Ok ([(key, v)], rest3)
                                        else if d' = CHR '','' then
                                          (if length rest3 < length s then
                                             (case parse_members rest3 of
                                                Ok (kvs, rest4) \<Rightarrow> Ok ((key, v) # kvs, rest4)
                                              | Throws e \<Rightarrow> Throws e
                                              | Unmodelled \<Rightarrow> Unmodelled)
                                           else Unmodelled)
                                        else Throws SyntaxError)
                               | Throws e \<Rightarrow> Throws e
                               | Unmodelled \<Rightarrow> Unmodelled))
                | Throws e \<Rightarrow> Throws e
                | Unmodelled \<Rightarrow> Unmodelled))"
  by pat_completeness auto
termination
proof (relation "measure (\<lambda>x. case x of
          Inl s \<Rightarrow> 3 * length s
        | Inr (Inl s) \<Rightarrow> 3 * length s + 1
        | Inr (Inr s) \<Rightarrow> 3 * length s + 1)", goal_cases)
  case 1
  then show ?case by simp
next
  case (2 c cs)
  then show ?case by simp
next
  case (3 c cs d rest)
  then show ?case using skip_ws_Cons_length[of cs d rest] skip_ws_length[of cs] by simp
next
  case (4 c cs d rest)
  then show ?case using skip_ws_Cons_length[of cs d rest] skip_ws_length[of cs] by simp
next
  case (5 s)
  then show ?case by simp
next
  case (6 s x1 v rest d rest')
  then show ?case by simp
next
  case (7 s q cs x1 key rest d rest1)
  then show ?case
    using skip_ws_Cons_length[of s q cs] parse_chars_length[of cs key rest]
      skip_ws_Cons_length[of rest d rest1] by simp
next
  case (8 s q cs x1 key rest d rest1 x1a v rest2 d' rest3)
  then show ?case by simp
qed

definition JSON_parse :: "string \<Rightarrow> jsval outcome" where
  "JSON_parse text =
     (case parse_value text of
        Ok (v, rest) \<Rightarrow> if skip_ws rest = [] then Ok v else Throws SyntaxError
      | Throws e \<Rightarrow> Throws e
      | Unmodelled \<Rightarrow> Unmodelled)"


subsection \<open>Number.parseInt\<close>

text \<open>\<^verbatim>\<open>Number.parseInt(text, 10)\<close>: leading white space is skipped, then a sign, then the
  longest run of decimal digits is read; with no digit the result is \<^verbatim>\<open>NaN\<close>.\<close>

definition is_js_space :: "char \<Rightarrow> bool" where
  "is_js_space c = (of_char c \<in> {9, 10, 11, 12, 13, 32, 160 :: nat})"

definition parseInt :: "string \<Rightarrow> number" where
  "parseInt s =
     (let s0 = dropWhile is_js_space s;
          negative = (s0 \<noteq> [] \<and> hd s0 = CHR ''-'');
          s1 = (if s0 \<noteq> [] \<and> (hd s0 = CHR ''-'' \<or> hd s0 = CHR ''+'') then tl s0 else s0);
          ds = takeWhile is_digit s1
      in if ds = [] then NaN
         else Finite (if negative then - int (digits_value ds) else int (digits_value ds)))"

subsection \<open>The restore effect\<close>

text \<open>
  \<^verbatim>\<open>
  useEffect(() => {
    if (typeof window !== "undefined") {
      const savedStep = sessionStorage.getItem("businessRegistrationStep")
      const savedData = sessionStorage.getItem("businessRegistrationData")
      if (savedStep) { setCurrentStep(Number.parseInt(savedStep, 10)) }
      if (savedData) { setFormData(JSON.parse(savedData)) }
      if (savedStep || savedData) { router.push("/dashboard/business?register=true") }
    }
  }, [router])
  \<close>
  \<^verbatim>\<open>getItem\<close> gives \<^verbatim>\<open>null\<close> for a missing entry; an entry is truthy when it is there and
  not the empty text. When \<^verbatim>\<open>JSON.parse\<close> throws, the effect throws.
\<close>

definition truthy :: "string option \<Rightarrow> bool" where
  "truthy t = (case t of None \<Rightarrow> False | Some s \<Rightarrow> s \<noteq> [])"

definition restoreSession :: "wizard \<Rightarrow> wizard outcome" where
  "restoreSession w =
     (let savedStep = sessionStorage w stepKey;
          savedData = sessionStorage w dataKey;
          w1 = (if truthy savedStep then w\<lparr> currentStep := parseInt (text_of savedStep) \<rparr> else w)
      in case (if truthy savedData
               then (case JSON_parse (text_of savedData) of
                       Ok d \<Rightarrow> Ok (w1\<lparr> formData := d \<rparr>)
                     | Throws e \<Rightarrow> Throws e
                     | Unmodelled \<Rightarrow> Unmodelled)
               else Ok w1) of
           Ok w2 \<Rightarrow>
             Ok (if truthy savedStep \<or> truthy savedData
                 then w2\<lparr> pushed := pushed w2 @ [''/dashboard/business?register=true''] \<rparr>
                 else w2)
         | Throws e \<Rightarrow> Throws e
         | Unmodelled \<Rightarrow> Unmodelled)"

text \<open>
  What \<^verbatim>\<open>handleNext\<close> leaves in session storage, as one function of the step and the
  form data: the text of the form data under the data key, then the text of the step
  under the step key.
\<close>

definition saveSession :: "number \<Rightarrow> jsval \<Rightarrow> (string \<Rightarrow> string option) \<Rightarrow> (string \<Rightarrow> string option)" where
  "saveSession step data storage =
     setItem stepKey (number_toString step)
       (setItem dataKey (text_of (JSON_stringify data)) storage)"

subsection \<open>Values that JSON text can carry\<close>

text \<open>
  \<open>revive v\<close> is the value that the text of \<open>v\<close> stands for: \<^verbatim>\<open>NaN\<close> and an
  \<^verbatim>\<open>undefined\<close> array element have become \<^verbatim>\<open>null\<close>, a property whose value is
  \<^verbatim>\<open>undefined\<close> is gone, and a class instance has become a plain object of its own
  enumerable properties (a \<^verbatim>\<open>File\<close> has become \<^verbatim>\<open>{}\<close>). \<open>json_plain v\<close>: \<open>v\<close> is built
  from \<^verbatim>\<open>null\<close>, booleans, numbers other than \<^verbatim>\<open>NaN\<close>, strings, arrays and plain
  objects only (an object has each of its keys once).
\<close>

fun revive :: "jsval \<Rightarrow> jsval" where
  "revive (JNum x) = (case x of Finite i \<Rightarrow> JNum x | NaN \<Rightarrow> JNull)"
| "revive (JArr xs) = JArr (map (\<lambda>x. if x = JUndefined then JNull else revive x) xs)"
| "revive (JObj kvs) =
     JObj (spread (concat (map (\<lambda>(key, val). if val = JUndefined then [] else [(key, revive val)]) kvs)) [])"
| "revive (JInst c kvs) =
     JObj (spread (concat (map (\<lambda>(key, val). if val = JUndefined then [] else [(key, revive val)]) kvs)) [])"
| "revive v = v"


text \<open>
  Notions for the proofs about \<^verbatim>\<open>JSON.parse\<close>. \<open>number_end rest\<close> and \<open>value_end rest\<close>:
  the text \<open>rest\<close> can follow a number, or any value, without being read as part of
  it. \<open>value_start t\<close>: the text \<open>t\<close> begins with a character that is neither white
  space nor a closing bracket. \<open>element_text\<close> and \<open>element_value\<close> are the text that
  \<^verbatim>\<open>JSON.stringify\<close> writes for an array element and the value it stands for;
  \<open>member_texts\<close> and \<open>member_values\<close> are the same for the properties of an object.
  \<open>parses_back v\<close>: the text of \<open>v\<close>, followed by any text that can follow a value,
  is read as \<open>revive v\<close>, and what follows is left.
\<close>

definition number_end :: "string \<Rightarrow> bool" where
  "number_end rest = (rest = [] \<or> (\<not> is_digit (hd rest) \<and> hd rest \<notin> set ''.eE''))"

definition value_end :: "string \<Rightarrow> bool" where
  "value_end rest = (rest = [] \<or> hd rest = CHR '','' \<or> hd rest = CHR '']'' \<or> hd rest = CHR ''}'')"

definition value_start :: "string \<Rightarrow> bool" where
  "value_start t = (t \<noteq> [] \<and> \<not> is_ws (hd t) \<and> hd t \<noteq> CHR '']'' \<and> hd t \<noteq> CHR ''}'')"

definition element_text :: "jsval \<Rightarrow> string" where
  "element_text x = (case serialize x of None \<Rightarrow> ''null'' | Some t \<Rightarrow> t)"

definition element_value :: "jsval \<Rightarrow> jsval" where
  "element_value x = (if x = JUndefined then JNull else revive x)"

definition parses_back :: "jsval \<Rightarrow> bool" where
  "parses_back v =
     (\<forall>t rest. serialize v = Some t \<longrightarrow> value_end rest \<longrightarrow>
        parse_value (t @ rest) = Ok (revive v, rest))"

definition member_texts :: "props \<Rightarrow> string list" where
  "member_texts kvs =
     concat (map (\<lambda>(key, val). case serialize val of
                                   None \<Rightarrow> []
                                 | Some t \<Rightarrow> [quoteJSONString key @ CHR '':'' # t]) kvs)"

definition member_values :: "props \<Rightarrow> props" where
  "member_values kvs =
     concat (map (\<lambda>(key, val). if val = JUndefined then [] else [(key, revive val)]) kvs)"

section \<open>Checkout endpoint (POST create-checkout-session)\<close>

text \<open>
  \<^verbatim>\<open>
  export async function POST(req: Request) {
    try {
      const { amount, businessId, userId } = await req.json();
      const session = await stripe.checkout.sessions.create({
        payment_method_types: ["card"],
        line_items: [{
          price_data: { currency: "usd", product_data: { name: "Business Registration" },
                        unit_amount: amount * 100 },
          quantity: 1 }],
        mode: "payment",
        success_url: `${process.env.NEXT_PUBLIC_BASE_URL}/dashboard/business/success?session_id={CHECKOUT_SESSION_ID}`,
        cancel_url: `${process.env.NEXT_PUBLIC_BASE_URL}/dashboard/business?payment=cancel`,
        metadata: { businessId, userId } });
      return NextResponse.json({ sessionId: session.id });
    } catch (error) {
      console.error("Error creating checkout session:", error);
      return NextResponse.json({ error: "Error creating checkout session" }, { status: 500 });
    }
  }
  \<close>
  The request body is the endpoint's declared input, an amount with two identifiers;
  \<open>None\<close> stands for a body that \<^verbatim>\<open>req.json()\<close> rejects. The amount is a whole number
  of currency units. The payment provider is a parameter: handed the session parameters
  it answers with the identifier of the session it created, or throws an error that
  carries the provider's detail. \<open>baseUrl\<close> is \<^verbatim>\<open>process.env.NEXT_PUBLIC_BASE_URL\<close>.
  A response is its HTTP status and its JSON body; \<^verbatim>\<open>NextResponse.json\<close> without a
  status answers 200.
\<close>

record checkout_request =
  amount :: int
  businessId :: string
  userId :: string




record http_response =
  status :: nat
  body :: props








section \<open>Example data\<close>

text \<open>For the data access layer: the sentinel object that \<^verbatim>\<open>serverTimestamp()\<close> returns, a draft with an absent
  package and an owner without the optional fields, and a draft whose
  \<^verbatim>\<open>paymentDetails\<close> is the array \<^verbatim>\<open>[undefined]\<close>; then what the store holds after
  each has been saved.\<close>

definition serverTimestamp0 :: jsval where
  "serverTimestamp0 = JInst ''FieldValue'' [(''_methodName'', JStr ''serverTimestamp'')]"

definition draft1 :: props where
  "draft1 = [(''country'', JObj [(''name'', JStr ''LK'')]),
             (''package'', JUndefined),
             (''owner'', JArr [JObj [(''id'', JStr ''1''), (''isCEO'', JUndefined)]]),
             (''status'', JStr ''completed'')]"

definition written1 :: jsval where
  "written1 = JObj [(''country'', JObj [(''name'', JStr ''LK'')]),
                    (''owner'', JArr [JObj [(''id'', JStr ''1'')]]),
                    (''status'', JStr ''draft''),
                    (''createdAt'', JObj [(''_methodName'', JStr ''serverTimestamp'')]),
                    (''updatedAt'', JObj [(''_methodName'', JStr ''serverTimestamp'')])]"

definition draft0 :: props where
  "draft0 = [(''paymentDetails'', JArr [JUndefined])]"

definition written0 :: jsval where
  "written0 = JObj [(''paymentDetails'', JArr [JUndefined]),
                    (''createdAt'', JObj [(''_methodName'', JStr ''serverTimestamp'')]),
                    (''updatedAt'', JObj [(''_methodName'', JStr ''serverTimestamp'')]),
                    (''status'', JStr ''draft'')]"

text \<open>
  Payment details and two clock readings; a store holding the first written draft; that
  document after \<^verbatim>\<open>completeBusinessRegistration\<close> at the first and then again at the
  second clock reading; the completed document after an update with
  \<^verbatim>\<open>{ status: 'draft' }\<close>; and the draft after an update with
  \<^verbatim>\<open>{ status: 'completed' }\<close>.
\<close>

definition pd0 :: props where
  "pd0 = [(''amount'', JNum (Finite 150)), (''currency'', JStr ''usd'')]"

definition now1 :: jsval where
  "now1 = JInst ''Timestamp'' [(''seconds'', JNum (Finite 100)), (''nanoseconds'', JNum (Finite 0))]"

definition now2 :: jsval where
  "now2 = JInst ''Timestamp'' [(''seconds'', JNum (Finite 160)), (''nanoseconds'', JNum (Finite 0))]"

definition stored1 :: store where
  "stored1 = (\<lambda>r. None)((''u1'', ''b1'') \<mapsto> written1)"

definition completed1 :: jsval where
  "completed1 = JObj
  [(''country'', JObj [(''name'', JStr ''LK'')]),
   (''owner'', JArr [JObj [(''id'', JStr ''1'')]]),
   (''status'', JStr ''completed''),
   (''createdAt'', JObj [(''_methodName'', JStr ''serverTimestamp'')]),
   (''updatedAt'', JObj [(''seconds'', JNum (Finite 100)), (''nanoseconds'', JNum (Finite 0))]),
   (''paymentDetails'',
    JObj [(''amount'', JNum (Finite 150)), (''currency'', JStr ''usd''),
          (''createdAt'', JObj [(''seconds'', JNum (Finite 100)), (''nanoseconds'', JNum (Finite 0))])])]"

definition completed2 :: jsval where
  "completed2 = JObj
  [(''country'', JObj [(''name'', JStr ''LK'')]),
   (''owner'', JArr [JObj [(''id'', JStr ''1'')]]),
   (''status'', JStr ''completed''),
   (''createdAt'', JObj [(''_methodName'', JStr ''serverTimestamp'')]),
   (''updatedAt'', JObj [(''seconds'', JNum (Finite 160)), (''nanoseconds'', JNum (Finite 0))]),
   (''paymentDetails'',
    JObj [(''amount'', JNum (Finite 150)), (''currency'', JStr ''usd''),
          (''createdAt'', JObj [(''seconds'', JNum (Finite 160)), (''nanoseconds'', JNum (Finite 0))])])]"

definition reverted1 :: jsval where
  "reverted1 = JObj
  [(''country'', JObj [(''name'', JStr ''LK'')]),
   (''owner'', JArr [JObj [(''id'', JStr ''1'')]]),
   (''status'', JStr ''draft''),
   (''createdAt'', JObj [(''_methodName'', JStr ''serverTimestamp'')]),
   (''updatedAt'', JObj [(''_methodName'', JStr ''serverTimestamp'')]),
   (''paymentDetails'',
    JObj [(''amount'', JNum (Finite 150)), (''currency'', JStr ''usd''),
          (''createdAt'', JObj [(''seconds'', JNum (Finite 100)), (''nanoseconds'', JNum (Finite 0))])])]"

definition unpaid1 :: jsval where
  "unpaid1 = JObj
  [(''country'', JObj [(''name'', JStr ''LK'')]),
   (''owner'', JArr [JObj [(''id'', JStr ''1'')]]),
   (''status'', JStr ''completed''),
   (''createdAt'', JObj [(''_methodName'', JStr ''serverTimestamp'')]),
   (''updatedAt'', JObj [(''_methodName'', JStr ''serverTimestamp'')])]"

text \<open>For the storage functions: a storage holding one object.\<close>

definition storage1 :: storage where
  "storage1 = \<lparr> objects = {''users/u1/documents/123.png''}, deletions = [] \<rparr>"

text \<open>For the wizard: a state at the review step with three fields filled in, step data
  for the package step, a state at the address step and step data for it.\<close>

definition wizard6 :: wizard where
  "wizard6 =
     \<lparr> currentStep = Finite 6,
       formData = JObj [(''country'', JObj [(''name'', JStr ''LK'')]),
                        (''package'', JObj [(''name'', JStr ''Basic''), (''price'', JNum (Finite 100))]),
                        (''company'', JObj [(''name'', JStr ''Acme''), (''type'', JStr ''LLC''),
                                           (''industry'', JStr ''IT'')])],
       hasRegisteredBusiness = False,
       sessionStorage = (\<lambda>k. None)(''businessRegistrationStep'' \<mapsto> ''6''),
       pushed = [] \<rparr>"

definition package2 :: jsval where
  "package2 = JObj [(''name'', JStr ''Pro''), (''price'', JNum (Finite 300)), (''badge'', JStr ''x'')]"

definition wizard5 :: wizard where
  "wizard5 =
     \<lparr> currentStep = Finite 5,
       formData = JObj [(''country'', JObj [(''name'', JStr ''LK'')])],
       hasRegisteredBusiness = False,
       sessionStorage = (\<lambda>k. None)(''businessRegistrationStep'' \<mapsto> ''5''),
       pushed = [] \<rparr>"

definition address5 :: jsval where
  "address5 = JObj [(''street'', JStr ''1 Main St''), (''city'', JStr ''Colombo''),
                    (''state'', JStr ''WP''), (''postalCode'', JStr ''00100''),
                    (''country'', JStr ''LK'')]"


definition owner4 :: jsval where
  "owner4 = JObj
  [(''owner'', JArr [JObj [(''id'', JStr ''1''), (''birthDate'', JUndefined),
                           (''document'', JInst ''File'' [])]])]"

section \<open>Properties of the data access layer\<close>

lemmas ex_defs = pd0_def now1_def now2_def stored1_def completed1_def completed2_def
  reverted1_def unpaid1_def written1_def serverTimestamp0_def draft1_def draft0_def written0_def

subsection \<open>Property lists\<close>

lemma set_update_subset: "set (AList.update k v al) \<subseteq> insert (k, v) (set al)"
  by (induct al) auto

lemma distinct_spread: "distinct (map fst target) \<Longrightarrow> distinct (map fst (spread src target))"
  unfolding spread_def
  by (induction src arbitrary: target) (auto simp: AList.distinct_update)

lemma map_of_spread:
  "distinct (map fst src) \<Longrightarrow>
   map_of (spread src target) k =
     (case map_of src k of Some v \<Rightarrow> Some v | None \<Rightarrow> map_of target k)"
  unfolding spread_def
proof (induction src arbitrary: target)
  case Nil
  then show ?case by simp
next
  case (Cons a src)
  obtain k' v' where a: "a = (k', v')" by (cases a)
  from Cons.prems a have nk: "map_of src k' = None"
    by (simp add: map_of_eq_None_iff)
  show ?case using Cons a nk by (auto simp: AList.update_conv' split: option.splits)
qed

lemma update_fresh: "k \<notin> fst ` set al \<Longrightarrow> AList.update k v al = al @ [(k, v)]"
  by (induct al) auto

lemma map_of_spread_rev:
  "map_of (spread src target) k =
     (case map_of (rev src) k of Some v \<Rightarrow> Some v | None \<Rightarrow> map_of target k)"
  unfolding spread_def
proof (induction src arbitrary: target)
  case Nil
  then show ?case by simp
next
  case (Cons a src)
  obtain k' v' where a: "a = (k', v')" by (cases a)
  show ?case
    unfolding a
    by (simp add: Cons.IH AList.update_conv' map_add_def split: option.splits)
qed

lemma map_of_spread_other:
  "k \<notin> fst ` set src \<Longrightarrow> map_of (spread src target) k = map_of target k"
proof -
  assume "k \<notin> fst ` set src"
  then have "map_of (rev src) k = None"
    by (simp add: map_of_eq_None_iff)
  then show ?thesis by (simp add: map_of_spread_rev)
qed

lemma keys_update: "fst ` set (AList.update k v al) = insert k (fst ` set al)"
  by (induct al) auto

lemma keys_spread: "fst ` set (spread src target) = fst ` set src \<union> fst ` set target"
  unfolding spread_def
proof (induction src arbitrary: target)
  case Nil
  then show ?case by simp
next
  case (Cons a src)
  obtain k v where a: "a = (k, v)" by (cases a)
  have "fst ` set (fold (\<lambda>(key, val). AList.update key val) src (AList.update k v target))
          = fst ` set src \<union> insert k (fst ` set target)"
    by (simp only: Cons.IH keys_update)
  then show ?case unfolding a by simp
qed

subsection \<open>What cleanFirestoreData removes\<close>

text \<open>The values that the \<^verbatim>\<open>reduce\<close> of \<^verbatim>\<open>cleanFirestoreData\<close> leaves in the
  accumulator are values it put there.\<close>

lemma strip_vals:
  assumes "\<forall>kv \<in> set acc. P (snd kv)"
      and "\<forall>kv \<in> set kvs. snd kv \<noteq> JUndefined \<longrightarrow> P (f (snd kv))"
  shows "\<forall>kv \<in> set (fold (\<lambda>(key, val) acc.
                   if val \<noteq> JUndefined then AList.update key (f val) acc
                   else acc) kvs acc). P (snd kv)"
  using assms
proof (induction kvs arbitrary: acc)
  case Nil
  then show ?case by simp
next
  case (Cons a kvs)
  obtain k v where a: "a = (k, v)" by (cases a)
  show ?case
  proof (cases "v = JUndefined")
    case True
    then show ?thesis using Cons a by simp
  next
    case False
    have "\<forall>kv\<in>set (AList.update k (f v) acc). P (snd kv)"
      using set_update_subset[of k "f v" acc] Cons.prems a False by auto
    then show ?thesis
      using Cons.IH[of "AList.update k (f v) acc"] Cons.prems(2) a False by simp
  qed
qed

lemma strip_map_of:
  "distinct (map fst kvs) \<Longrightarrow>
   map_of (fold (\<lambda>(key, val) acc.
                   if val \<noteq> JUndefined then AList.update key (f val) acc
                   else acc) kvs acc) k =
   (case map_of kvs k of
      Some v \<Rightarrow> if v \<noteq> JUndefined then Some (f v) else map_of acc k
    | None \<Rightarrow> map_of acc k)"
proof (induction kvs arbitrary: acc)
  case Nil
  then show ?case by simp
next
  case (Cons a kvs)
  obtain k' v' where a: "a = (k', v')" by (cases a)
  from Cons.prems a have nk: "map_of kvs k' = None"
    by (simp add: map_of_eq_None_iff)
  show ?case using Cons a nk by (auto simp: AList.update_conv' split: option.splits)
qed

lemma clean_defined: "v \<noteq> JUndefined \<Longrightarrow> cleanFirestoreData v \<noteq> JUndefined"
  by (cases v) simp_all


lemma field_clean_obj:
  "distinct (map fst kvs) \<Longrightarrow>
   field (own_props (cleanFirestoreData (JObj kvs))) k =
     (case map_of kvs k of Some v \<Rightarrow> cleanFirestoreData v | None \<Rightarrow> JUndefined)"
  by (auto simp: field_def strip_map_of split: option.splits)











lemma keys_strip:
  "fst ` set (fold (\<lambda>(key, val) acc.
                   if val \<noteq> JUndefined then AList.update key (f val) acc
                   else acc) kvs acc) \<subseteq> fst ` set kvs \<union> fst ` set acc"
proof (induction kvs arbitrary: acc)
  case Nil
  then show ?case by simp
next
  case (Cons a kvs)
  obtain k v where a: "a = (k, v)" by (cases a)
  show ?case
  proof (cases "v = JUndefined")
    case True
    then show ?thesis using Cons.IH[of acc] a by auto
  next
    case False
    then show ?thesis using Cons.IH[of "AList.update k (f v) acc"] a
      by (auto simp: keys_update)
  qed
qed

lemma keys_clean_obj: "fst ` set (own_props (cleanFirestoreData (JObj kvs))) \<subseteq> fst ` set kvs"
  using keys_strip[of cleanFirestoreData kvs "[]"] by simp

lemma vals_clean_obj:
  "(k, v) \<in> set (own_props (cleanFirestoreData (JObj kvs))) \<Longrightarrow> v \<noteq> JUndefined"
proof -
  have "\<forall>kv \<in> set (fold (\<lambda>(key, val) acc.
                   if val \<noteq> JUndefined then AList.update key (cleanFirestoreData val) acc
                   else acc) kvs []). (\<lambda>w. w \<noteq> JUndefined) (snd kv)"
    by (rule strip_vals) (use clean_defined in \<open>auto\<close>)
  then show "(k, v) \<in> set (own_props (cleanFirestoreData (JObj kvs))) \<Longrightarrow> v \<noteq> JUndefined"
    by auto
qed

subsection \<open>Writes to the store\<close>

lemma updateDoc_Inr:
  "updateDoc ok st r d = Inr st' \<longleftrightarrow>
     ok d \<and> (\<exists>old. st r = Some old \<and> st' = st(r \<mapsto> merge_fields old d))"
  by (auto simp: updateDoc_def split: option.splits)

lemma field_merge:
  "field (own_props (merge_fields old d)) k =
     (case map_of (rev (own_props d)) k of Some v \<Rightarrow> v | None \<Rightarrow> field (own_props old) k)"
  by (simp add: merge_fields_def field_def map_of_spread_rev split: option.splits)

subsection \<open>Creating a draft\<close>

lemma distinct_formatted: "distinct (map fst (formattedBusinessData ts D))"
  unfolding formattedBusinessData_def
  by (intro AList.distinct_update distinct_spread) simp

lemma status_formatted:
  "map_of (formattedBusinessData ts D) ''status'' = Some (JStr ''draft'')"
  unfolding formattedBusinessData_def by (simp add: AList.update_conv')





subsection \<open>The three writing operations\<close>

lemma save_Inr:
  "saveBusinessDraft ok newId ts st uid D = Inr (bid, st') \<longleftrightarrow>
     bid = newId \<and> ok (cleanFirestoreData (JObj (formattedBusinessData ts D))) \<and>
     st' = st((uid, newId) \<mapsto> cleanFirestoreData (JObj (formattedBusinessData ts D)))"
  by (auto simp: saveBusinessDraft_def setDoc_def)

lemma update_Inr:
  "updateBusiness ok ts st uid bizId F = Inr (bid, st') \<longleftrightarrow>
     bid = bizId \<and>
     updateDoc ok st (uid, bizId)
       (cleanFirestoreData (JObj (AList.update ''updatedAt'' ts (spread F [])))) = Inr st'"
  by (auto simp: updateBusiness_def split: sum.splits)

lemma complete_Inr:
  "completeBusinessRegistration ok now st uid bizId pd = Inr (bid, st') \<longleftrightarrow>
     bid = bizId \<and>
     updateDoc ok st (uid, bizId) (cleanFirestoreData (completionData now pd)) = Inr st'"
  by (auto simp: completeBusinessRegistration_def split: sum.splits)

lemma completion_props:
  "own_props (cleanFirestoreData (completionData now pd)) =
     [(''paymentDetails'', cleanFirestoreData (JObj (AList.update ''createdAt'' now (spread pd [])))),
      (''status'', JStr ''completed'')]
     @ (if now = JUndefined then [] else [(''updatedAt'', cleanFirestoreData now)])"
  by (simp add: completionData_def)

lemma status_written_draft:
  "status_of (cleanFirestoreData (JObj (formattedBusinessData ts D))) = JStr ''draft''"
  unfolding status_of_def
  by (subst field_clean_obj[OF distinct_formatted]) (simp add: status_formatted)

lemma status_after_update:
  assumes "''status'' \<notin> fst ` set F"
  shows "status_of (merge_fields old (cleanFirestoreData (JObj (AList.update ''updatedAt'' ts (spread F [])))))
           = status_of old"
proof -
  have "fst ` set (own_props (cleanFirestoreData (JObj (AList.update ''updatedAt'' ts (spread F [])))))
          \<subseteq> insert ''updatedAt'' (fst ` set F)"
    using keys_clean_obj[of "AList.update ''updatedAt'' ts (spread F [])"]
    by (simp add: keys_update keys_spread)
  with assms have "''status'' \<notin> fst ` set (own_props (cleanFirestoreData (JObj (AList.update ''updatedAt'' ts (spread F [])))))"
    by auto
  then have "map_of (rev (own_props (cleanFirestoreData (JObj (AList.update ''updatedAt'' ts (spread F [])))))) ''status'' = None"
    by (simp add: map_of_eq_None_iff)
  then show ?thesis
    unfolding status_of_def by (subst field_merge) simp
qed

lemma field_after_clean_merge:
  assumes "field (own_props old) k \<noteq> JUndefined"
  shows "field (own_props (merge_fields old (cleanFirestoreData (JObj kvs)))) k \<noteq> JUndefined"
proof (cases "map_of (rev (own_props (cleanFirestoreData (JObj kvs)))) k")
  case None
  then show ?thesis using assms by (subst field_merge) simp
next
  case (Some v)
  then have "(k, v) \<in> set (own_props (cleanFirestoreData (JObj kvs)))"
    using map_of_SomeD[of "rev (own_props (cleanFirestoreData (JObj kvs)))" k v] by simp
  then have "v \<noteq> JUndefined" by (rule vals_clean_obj)
  then show ?thesis using Some by (subst field_merge) simp
qed

lemma status_after_complete:
  "status_of (merge_fields old (cleanFirestoreData (completionData now pd))) = JStr ''completed''"
  unfolding status_of_def
  by (subst field_merge) (simp add: completion_props)

lemma payment_after_complete:
  "field (own_props (merge_fields old (cleanFirestoreData (completionData now pd)))) ''paymentDetails''
     = cleanFirestoreData (JObj (AList.update ''createdAt'' now (spread pd [])))"
  by (subst field_merge) (simp add: completion_props)

lemma complete_eq:
  "completeBusinessRegistration ok now st uid bizId pd =
     (if \<not> ok (cleanFirestoreData (completionData now pd)) then Inl InvalidData
      else case st (uid, bizId) of
             None \<Rightarrow> Inl NoSuchDocument
           | Some old \<Rightarrow> Inr (bizId, st((uid, bizId) \<mapsto>
                 merge_fields old (cleanFirestoreData (completionData now pd)))))"
  by (simp add: completeBusinessRegistration_def updateDoc_def split: option.splits)

lemma update_eq:
  "updateBusiness ok ts st uid bizId F =
     (if \<not> ok (cleanFirestoreData (JObj (AList.update ''updatedAt'' ts (spread F [])))) then Inl InvalidData
      else case st (uid, bizId) of
             None \<Rightarrow> Inl NoSuchDocument
           | Some old \<Rightarrow> Inr (bizId, st((uid, bizId) \<mapsto>
                 merge_fields old (cleanFirestoreData (JObj (AList.update ''updatedAt'' ts (spread F [])))))))"
  by (simp add: updateBusiness_def updateDoc_def split: option.splits)

lemma ex_complete1:
  "completeBusinessRegistration strict now1 stored1 ''u1'' ''b1'' pd0 =
     Inr (''b1'', stored1((''u1'', ''b1'') \<mapsto> completed1))"
  by (simp add: complete_eq completionData_def merge_fields_def spread_def strict_def ex_defs)

lemma ex_complete2:
  "completeBusinessRegistration strict now2 (stored1((''u1'', ''b1'') \<mapsto> completed1)) ''u1'' ''b1'' pd0 =
     Inr (''b1'', stored1((''u1'', ''b1'') \<mapsto> completed2))"
  by (simp add: complete_eq completionData_def merge_fields_def spread_def strict_def ex_defs)

lemma ex_revert:
  "updateBusiness strict serverTimestamp0 (stored1((''u1'', ''b1'') \<mapsto> completed1)) ''u1'' ''b1''
      [(''status'', JStr ''draft'')] =
     Inr (''b1'', stored1((''u1'', ''b1'') \<mapsto> reverted1))"
  by (simp add: update_eq merge_fields_def spread_def strict_def ex_defs)

lemma ex_unpaid:
  "updateBusiness strict serverTimestamp0 stored1 ''u1'' ''b1'' [(''status'', JStr ''completed'')] =
     Inr (''b1'', stored1((''u1'', ''b1'') \<mapsto> unpaid1))"
  by (simp add: update_eq merge_fields_def spread_def strict_def ex_defs)

lemma spread_present:
  "\<forall>kv \<in> set src. map_of T (fst kv) = Some (snd kv) \<Longrightarrow> spread src T = T"
  unfolding spread_def
  by (induction src) (auto simp: AList.update_triv)

lemma spread_absorb:
  assumes "distinct (map fst src)"
  shows "spread src (spread src target) = spread src target"
proof (rule spread_present)
  show "\<forall>kv \<in> set src. map_of (spread src target) (fst kv) = Some (snd kv)"
    using assms by (auto simp: map_of_spread)
qed

lemma merge_absorb:
  assumes "distinct (map fst (own_props d))"
  shows "merge_fields (merge_fields old d) d = merge_fields old d"
  using spread_absorb[OF assms] by (simp add: merge_fields_def)

lemma distinct_completion:
  "distinct (map fst (own_props (cleanFirestoreData (completionData now pd))))"
  by (simp add: completion_props)

lemma payment_field_other:
  assumes "k \<noteq> ''createdAt''"
  shows "field (own_props (cleanFirestoreData (JObj (AList.update ''createdAt'' now (spread pd []))))) k
       = field (own_props (cleanFirestoreData (JObj (spread pd [])))) k"
proof -
  have d1: "distinct (map fst (AList.update ''createdAt'' now (spread pd [])))"
    by (intro AList.distinct_update distinct_spread) simp
  have d2: "distinct (map fst (spread pd []))"
    by (intro distinct_spread) simp
  show ?thesis
    using assms by (simp only: field_clean_obj[OF d1] field_clean_obj[OF d2] AList.update_conv') simp
qed

lemma field_merge_completion_other:
  assumes "k \<noteq> ''paymentDetails''" and "k \<noteq> ''updatedAt''" and "k \<noteq> ''status''"
  shows "field (own_props (merge_fields old (cleanFirestoreData (completionData now pd)))) k
       = field (own_props old) k"
  using assms by (subst field_merge) (simp add: completion_props)

subsection \<open>Status of a document along a sequence of operations\<close>

lemma status_step_trans: "status_step a b \<Longrightarrow> status_step b c \<Longrightarrow> status_step a c"
  by (auto simp: status_step_def)

lemma draft_or_paid_written:
  "draft_or_paid (cleanFirestoreData (JObj (formattedBusinessData ts D)))"
  by (simp only: draft_or_paid_def status_written_draft) simp

lemma draft_or_paid_update:
  assumes "draft_or_paid old" and "''status'' \<notin> fst ` set F"
  shows "draft_or_paid (merge_fields old
           (cleanFirestoreData (JObj (AList.update ''updatedAt'' ts (spread F [])))))"
proof -
  have s: "status_of (merge_fields old
           (cleanFirestoreData (JObj (AList.update ''updatedAt'' ts (spread F []))))) = status_of old"
    using assms(2) by (rule status_after_update)
  have p: "field (own_props (merge_fields old
           (cleanFirestoreData (JObj (AList.update ''updatedAt'' ts (spread F [])))))) ''paymentDetails''
           \<noteq> JUndefined"
    if "field (own_props old) ''paymentDetails'' \<noteq> JUndefined"
    using that by (rule field_after_clean_merge)
  show ?thesis
    using assms(1) p unfolding draft_or_paid_def s by blast
qed

lemma draft_or_paid_complete:
  "draft_or_paid (merge_fields old (cleanFirestoreData (completionData now pd)))"
  by (simp only: draft_or_paid_def status_after_complete payment_after_complete) simp

lemma dal_step_status:
  assumes "dal_step ok st c st'" and "\<not> sets_status c" and "status_invariant st"
  shows "status_invariant st' \<and>
         (\<forall>r d. st r = Some d \<longrightarrow>
            (\<exists>d'. st' r = Some d' \<and> status_step (status_of d) (status_of d')))"
  using assms
proof (cases rule: dal_step.cases)
  case (create uid newId ts businessData bid)
  from create(3) have st': "st' = st((uid, newId) \<mapsto>
      cleanFirestoreData (JObj (formattedBusinessData ts businessData)))"
    by (simp add: save_Inr)
  have "status_invariant st'"
    using assms(3) draft_or_paid_written unfolding st' status_invariant_def by auto
  moreover have "\<exists>d'. st' r = Some d' \<and> status_step (status_of d) (status_of d')"
    if "st r = Some d" for r d
  proof -
    from that create(2) have "r \<noteq> (uid, newId)" by auto
    then show ?thesis using that unfolding st' by (simp add: status_step_def)
  qed
  ultimately show ?thesis by blast
next
  case (update ts uid bizId updateData bid)
  from update(2) obtain old where old: "st (uid, bizId) = Some old"
    and st': "st' = st((uid, bizId) \<mapsto> merge_fields old
        (cleanFirestoreData (JObj (AList.update ''updatedAt'' ts (spread updateData [])))))"
    by (auto simp: update_Inr updateDoc_Inr)
  from assms(2) update(1) have ns: "''status'' \<notin> fst ` set updateData" by simp
  from assms(3) old have "draft_or_paid old" by (simp add: status_invariant_def)
  then have dp: "draft_or_paid (merge_fields old
        (cleanFirestoreData (JObj (AList.update ''updatedAt'' ts (spread updateData [])))))"
    using ns by (rule draft_or_paid_update)
  have "status_invariant st'"
    using assms(3) dp unfolding st' status_invariant_def by auto
  moreover have "\<exists>d'. st' r = Some d' \<and> status_step (status_of d) (status_of d')"
    if "st r = Some d" for r d
  proof (cases "r = (uid, bizId)")
    case True
    with that old have "d = old" by simp
    then show ?thesis
      unfolding st' using True status_after_update[OF ns, of old ts]
      by (simp add: status_step_def)
  next
    case False
    then show ?thesis using that unfolding st' by (simp add: status_step_def)
  qed
  ultimately show ?thesis by blast
next
  case (complete now uid bizId paymentDetails bid)
  from complete(2) obtain old where old: "st (uid, bizId) = Some old"
    and st': "st' = st((uid, bizId) \<mapsto> merge_fields old
        (cleanFirestoreData (completionData now paymentDetails)))"
    by (auto simp: complete_Inr updateDoc_Inr)
  have "status_invariant st'"
    using assms(3) draft_or_paid_complete unfolding st' status_invariant_def by auto
  moreover have "\<exists>d'. st' r = Some d' \<and> status_step (status_of d) (status_of d')"
    if "st r = Some d" for r d
  proof (cases "r = (uid, bizId)")
    case True
    with that old have "d = old" by simp
    moreover from assms(3) old have "draft_or_paid old" by (simp add: status_invariant_def)
    ultimately show ?thesis
      unfolding st' using True status_after_complete[of old now paymentDetails]
      by (auto simp: status_step_def draft_or_paid_def)
  next
    case False
    then show ?thesis using that unfolding st' by (simp add: status_step_def)
  qed
  ultimately show ?thesis by blast
qed

lemma ex_update_company:
  "updateBusiness strict serverTimestamp0 stored1 ''u1'' ''b1''
      [(''package'', JUndefined)] =
     Inr (''b1'', stored1)"
  by (simp add: update_eq merge_fields_def spread_def strict_def ex_defs)

lemma ex_run:
  "dal_run strict stored1
     [UpdateDraft ''u1'' ''b1'' serverTimestamp0 [(''package'', JUndefined)],
      CompleteRegistration ''u1'' ''b1'' now1 pd0]
     (stored1((''u1'', ''b1'') \<mapsto> completed1))"
  by (rule dal_run.call[OF dal_step.update[OF ex_update_company]
          dal_run.call[OF dal_step.complete[OF ex_complete1] dal_run.empty]])

lemma ex_inv: "status_invariant stored1"
  by (simp add: status_invariant_def draft_or_paid_def status_of_def field_def stored1_def written1_def)

text \<open>
  Claim C3, as the code has it. Take any sequence of successful calls of
  \<^verbatim>\<open>saveBusinessDraft\<close>, \<^verbatim>\<open>updateBusiness\<close> and \<^verbatim>\<open>completeBusinessRegistration\<close>
  in which no update carries a \<^verbatim>\<open>status\<close> property, from a store in which every
  document is a draft or is completed and has payment details. Then the same holds of the
  store at the end, no document disappears, and the status of every document is at the
  end what it was at the start or has moved from draft to completed.
\<close>

theorem status_only_moves_draft_to_completed:
  assumes "dal_run ok st calls st'"
      and "\<forall>c \<in> set calls. \<not> sets_status c"
      and "status_invariant st"
  shows "status_invariant st' \<and>
         (\<forall>r d. st r = Some d \<longrightarrow>
            (\<exists>d'. st' r = Some d' \<and> status_step (status_of d) (status_of d')))"
  using assms
proof (induction rule: dal_run.induct)
  case (empty ok st)
  then show ?case by (simp add: status_step_def)
next
  case (call ok st c st1 cs st')
  from call.prems have nc: "\<not> sets_status c" and ncs: "\<forall>c \<in> set cs. \<not> sets_status c"
    by simp_all
  from dal_step_status[OF call.hyps(1) nc call.prems(2)]
  have inv1: "status_invariant st1"
    and mv1: "\<And>r d. st r = Some d \<Longrightarrow>
            \<exists>d'. st1 r = Some d' \<and> status_step (status_of d) (status_of d')"
    by blast+
  from call.IH[OF ncs inv1]
  have inv': "status_invariant st'"
    and mv': "\<And>r d. st1 r = Some d \<Longrightarrow>
            \<exists>d'. st' r = Some d' \<and> status_step (status_of d) (status_of d')"
    by blast+
  have "\<exists>d'. st' r = Some d' \<and> status_step (status_of d) (status_of d')"
    if "st r = Some d" for r d
  proof -
    from mv1[OF that] obtain d1 where d1: "st1 r = Some d1"
      and s1: "status_step (status_of d) (status_of d1)" by blast
    from mv'[OF d1] obtain d' where d': "st' r = Some d'"
      and s': "status_step (status_of d1) (status_of d')" by blast
    from s1 s' have "status_step (status_of d) (status_of d')" by (rule status_step_trans)
    with d' show ?thesis by blast
  qed
  with inv' show ?case by blast
qed

theorem status_only_moves_draft_to_completed_witness:
  "dal_run strict stored1
     [UpdateDraft ''u1'' ''b1'' serverTimestamp0 [(''package'', JUndefined)],
      CompleteRegistration ''u1'' ''b1'' now1 pd0]
     (stored1((''u1'', ''b1'') \<mapsto> completed1)) \<and>
   status_invariant stored1 \<and>
   status_invariant (stored1((''u1'', ''b1'') \<mapsto> completed1)) \<and>
   status_step (status_of written1) (status_of completed1) \<and>
   status_of written1 = JStr ''draft'' \<and> status_of completed1 = JStr ''completed''"
proof -
  have ns: "\<forall>c \<in> set [UpdateDraft ''u1'' ''b1'' serverTimestamp0 [(''package'', JUndefined)],
      CompleteRegistration ''u1'' ''b1'' now1 pd0]. \<not> sets_status c"
    by simp
  have w: "stored1 (''u1'', ''b1'') = Some written1" by (simp add: stored1_def)
  from status_only_moves_draft_to_completed[OF ex_run ns ex_inv] w
  have "status_invariant (stored1((''u1'', ''b1'') \<mapsto> completed1))"
    and "\<exists>d'. (stored1((''u1'', ''b1'') \<mapsto> completed1)) (''u1'', ''b1'') = Some d' \<and>
           status_step (status_of written1) (status_of d')"
    by blast+
  then have "status_invariant (stored1((''u1'', ''b1'') \<mapsto> completed1))"
    and "status_step (status_of written1) (status_of completed1)"
    by simp_all
  moreover have "status_of written1 = JStr ''draft''" "status_of completed1 = JStr ''completed''"
    by (simp_all add: status_of_def field_def ex_defs)
  ultimately show ?thesis using ex_run ex_inv by blast
qed

text \<open>
  Claim C3 as stated fails: \<^verbatim>\<open>updateBusiness\<close> takes a \<^verbatim>\<open>Partial<BusinessData>\<close>, which
  may carry \<^verbatim>\<open>status\<close>, and writes it like any other field. An update with
  \<^verbatim>\<open>{ status: 'draft' }\<close> moves a completed document back to draft, and an update with
  \<^verbatim>\<open>{ status: 'completed' }\<close> completes a draft that has no payment details.
\<close>

theorem status_reverted_by_update_counterexample:
  "dal_run strict stored1
     [CompleteRegistration ''u1'' ''b1'' now1 pd0,
      UpdateDraft ''u1'' ''b1'' serverTimestamp0 [(''status'', JStr ''draft'')]]
     (stored1((''u1'', ''b1'') \<mapsto> reverted1)) \<and>
   status_of completed1 = JStr ''completed'' \<and>
   status_of reverted1 = JStr ''draft'' \<and>
   dal_run strict stored1
     [UpdateDraft ''u1'' ''b1'' serverTimestamp0 [(''status'', JStr ''completed'')]]
     (stored1((''u1'', ''b1'') \<mapsto> unpaid1)) \<and>
   status_of unpaid1 = JStr ''completed'' \<and>
   field (own_props unpaid1) ''paymentDetails'' = JUndefined"
proof -
  have r1: "dal_run strict stored1
     [CompleteRegistration ''u1'' ''b1'' now1 pd0,
      UpdateDraft ''u1'' ''b1'' serverTimestamp0 [(''status'', JStr ''draft'')]]
     (stored1((''u1'', ''b1'') \<mapsto> reverted1))"
    by (rule dal_run.call[OF dal_step.complete[OF ex_complete1]
          dal_run.call[OF dal_step.update[OF ex_revert] dal_run.empty]])
  have r2: "dal_run strict stored1
     [UpdateDraft ''u1'' ''b1'' serverTimestamp0 [(''status'', JStr ''completed'')]]
     (stored1((''u1'', ''b1'') \<mapsto> unpaid1))"
    by (rule dal_run.call[OF dal_step.update[OF ex_unpaid] dal_run.empty])
  have "status_of completed1 = JStr ''completed''" "status_of reverted1 = JStr ''draft''"
    "status_of unpaid1 = JStr ''completed''" "field (own_props unpaid1) ''paymentDetails'' = JUndefined"
    by (simp_all add: status_of_def field_def ex_defs)
  with r1 r2 show ?thesis by blast
qed

subsection \<open>Reading a draft\<close>






subsection \<open>Completing a registration twice\<close>

text \<open>
  Claim C4, as the code has it. When \<^verbatim>\<open>completeBusinessRegistration\<close> succeeds twice
  on the same document with the same payment details, the status is \<^verbatim>\<open>"completed"\<close>
  after each call, and the second call leaves the document as the first wrote it except
  for the two timestamps it stamps anew, \<^verbatim>\<open>paymentDetails.createdAt\<close> and
  \<^verbatim>\<open>updatedAt\<close>; other documents are untouched, and when both calls read the same
  instant the second call changes nothing.
\<close>

theorem complete_twice_same_but_timestamps:
  assumes c1: "completeBusinessRegistration ok now1 st uid bizId pd = Inr (b1, st1)"
      and c2: "completeBusinessRegistration ok now2 st1 uid bizId pd = Inr (b2, st2)"
  shows "\<exists>d1 d2. st1 (uid, bizId) = Some d1 \<and> st2 (uid, bizId) = Some d2 \<and>
           status_of d1 = JStr ''completed'' \<and> status_of d2 = JStr ''completed'' \<and>
           (\<forall>k. k \<noteq> ''paymentDetails'' \<and> k \<noteq> ''updatedAt'' \<longrightarrow>
                field (own_props d2) k = field (own_props d1) k) \<and>
           (\<forall>k. k \<noteq> ''createdAt'' \<longrightarrow>
                field (own_props (field (own_props d2) ''paymentDetails'')) k =
                field (own_props (field (own_props d1) ''paymentDetails'')) k) \<and>
           (\<forall>r. r \<noteq> (uid, bizId) \<longrightarrow> st2 r = st1 r) \<and>
           (now1 = now2 \<longrightarrow> st2 = st1)"
proof -
  define x1 where "x1 = cleanFirestoreData (completionData now1 pd)"
  define x2 where "x2 = cleanFirestoreData (completionData now2 pd)"
  from c1 obtain old where old: "st (uid, bizId) = Some old"
    and st1: "st1 = st((uid, bizId) \<mapsto> merge_fields old x1)"
    by (auto simp: complete_Inr updateDoc_Inr x1_def)
  define d1 where "d1 = merge_fields old x1"
  have g1: "st1 (uid, bizId) = Some d1" by (simp add: st1 d1_def)
  from c2 g1 have st2: "st2 = st1((uid, bizId) \<mapsto> merge_fields d1 x2)"
    by (auto simp: complete_Inr updateDoc_Inr x2_def)
  define d2 where "d2 = merge_fields d1 x2"
  have g2: "st2 (uid, bizId) = Some d2" by (simp add: st2 d2_def)
  have s1: "status_of d1 = JStr ''completed''"
    unfolding d1_def x1_def by (rule status_after_complete)
  have s2: "status_of d2 = JStr ''completed''"
    unfolding d2_def x2_def by (rule status_after_complete)
  have other: "field (own_props d2) k = field (own_props d1) k"
    if "k \<noteq> ''paymentDetails''" "k \<noteq> ''updatedAt''" for k
  proof (cases "k = ''status''")
    case True
    then show ?thesis using s1 s2 by (simp add: status_of_def)
  next
    case False
    then show ?thesis
      unfolding d2_def x2_def using that by (intro field_merge_completion_other)
  qed
  have pay: "field (own_props (field (own_props d2) ''paymentDetails'')) k =
             field (own_props (field (own_props d1) ''paymentDetails'')) k"
    if "k \<noteq> ''createdAt''" for k
    unfolding d1_def d2_def x1_def x2_def payment_after_complete
    using payment_field_other[OF that, of now1 pd] payment_field_other[OF that, of now2 pd]
    by simp
  have rest: "st2 r = st1 r" if "r \<noteq> (uid, bizId)" for r
    using that by (simp add: st2)
  have same: "st2 = st1" if "now1 = now2"
  proof -
    from that have "x2 = x1" by (simp add: x1_def x2_def)
    moreover have "distinct (map fst (own_props x1))"
      unfolding x1_def by (rule distinct_completion)
    ultimately have "d2 = d1"
      unfolding d2_def d1_def by (simp add: merge_absorb)
    then show ?thesis
      using g1 by (simp add: st2 d2_def[symmetric] fun_upd_idem)
  qed
  from g1 g2 s1 s2 other pay rest same show ?thesis by blast
qed

theorem complete_twice_same_but_timestamps_witness:
  "completeBusinessRegistration strict now1 stored1 ''u1'' ''b1'' pd0 =
     Inr (''b1'', stored1((''u1'', ''b1'') \<mapsto> completed1)) \<and>
   completeBusinessRegistration strict now2 (stored1((''u1'', ''b1'') \<mapsto> completed1)) ''u1'' ''b1'' pd0 =
     Inr (''b1'', stored1((''u1'', ''b1'') \<mapsto> completed2)) \<and>
   status_of completed2 = JStr ''completed'' \<and>
   field (own_props completed2) ''country'' = field (own_props completed1) ''country'' \<and>
   field (own_props (field (own_props completed2) ''paymentDetails'')) ''amount'' =
     field (own_props (field (own_props completed1) ''paymentDetails'')) ''amount''"
proof -
  from complete_twice_same_but_timestamps[OF ex_complete1 ex_complete2]
  obtain d1 d2 where
      "(stored1((''u1'', ''b1'') \<mapsto> completed1)) (''u1'', ''b1'') = Some d1"
      "(stored1((''u1'', ''b1'') \<mapsto> completed2)) (''u1'', ''b1'') = Some d2"
      "status_of d2 = JStr ''completed''"
      "\<forall>k. k \<noteq> ''paymentDetails'' \<and> k \<noteq> ''updatedAt'' \<longrightarrow>
                field (own_props d2) k = field (own_props d1) k"
      "\<forall>k. k \<noteq> ''createdAt'' \<longrightarrow>
                field (own_props (field (own_props d2) ''paymentDetails'')) k =
                field (own_props (field (own_props d1) ''paymentDetails'')) k"
    by blast
  then have "status_of completed2 = JStr ''completed''"
    "field (own_props completed2) ''country'' = field (own_props completed1) ''country''"
    "field (own_props (field (own_props completed2) ''paymentDetails'')) ''amount'' =
     field (own_props (field (own_props completed1) ''paymentDetails'')) ''amount''"
    by simp_all
  with ex_complete1 ex_complete2 show ?thesis by blast
qed

text \<open>
  Claim C4 as stated fails: each call stamps \<^verbatim>\<open>Timestamp.now()\<close> into
  \<^verbatim>\<open>paymentDetails.createdAt\<close>, so a second call a minute later stores payment details
  that differ from those the first call stored.
\<close>

theorem complete_twice_restamps_counterexample:
  "completeBusinessRegistration strict now1 stored1 ''u1'' ''b1'' pd0 =
     Inr (''b1'', stored1((''u1'', ''b1'') \<mapsto> completed1)) \<and>
   completeBusinessRegistration strict now2 (stored1((''u1'', ''b1'') \<mapsto> completed1)) ''u1'' ''b1'' pd0 =
     Inr (''b1'', stored1((''u1'', ''b1'') \<mapsto> completed2)) \<and>
   field (own_props completed2) ''paymentDetails'' \<noteq> field (own_props completed1) ''paymentDetails'' \<and>
   completed2 \<noteq> completed1"
proof -
  have "field (own_props completed2) ''paymentDetails'' \<noteq> field (own_props completed1) ''paymentDetails''"
    "completed2 \<noteq> completed1"
    by (simp_all add: field_def ex_defs)
  with ex_complete1 ex_complete2 show ?thesis by blast
qed

section \<open>Properties of the checkout endpoint\<close>



section \<open>Properties of the storage path functions\<close>

lemma split_str_nonempty: "split_str sep s \<noteq> []"
  by (induction sep s rule: split_str.induct) (auto split: list.splits)

lemma split_str_absent: "\<not> contains sep s \<Longrightarrow> split_str sep s = [s]"
  by (induction sep s rule: split_str.induct) (auto split: list.splits)

lemma split_str_present:
  "sep \<noteq> [] \<Longrightarrow> contains sep s \<Longrightarrow> \<exists>p0 p1 ps. split_str sep s = p0 # p1 # ps"
proof (induction sep s rule: split_str.induct)
  case (1 sep)
  then show ?case by simp
next
  case (2 sep c cs)
  show ?case
  proof (cases "take (length sep) (c # cs) = sep")
    case True
    obtain q qs where "split_str sep (drop (length sep) (c # cs)) = q # qs"
      using split_str_nonempty[of sep "drop (length sep) (c # cs)"] by (cases "split_str sep (drop (length sep) (c # cs))") auto
    then show ?thesis using True 2(3) by simp
  next
    case False
    with 2(4) have "contains sep cs" by simp
    with 2(2)[OF _ 2(3)] False obtain p0 p1 ps where "split_str sep cs = p0 # p1 # ps"
      by auto
    then show ?thesis using False by simp
  qed
qed

lemma contains_iff: "contains sep s \<longleftrightarrow> (\<exists>xs ys. s = xs @ sep @ ys)"
proof (induction s)
  case Nil
  then show ?case by auto
next
  case (Cons c cs)
  show ?case
  proof
    assume "contains sep (c # cs)"
    then consider "take (length sep) (c # cs) = sep" | "contains sep cs" by auto
    then show "\<exists>xs ys. c # cs = xs @ sep @ ys"
    proof cases
      case 1
      then have "c # cs = [] @ sep @ drop (length sep) (c # cs)"
        by (metis append_Nil append_take_drop_id)
      then show ?thesis by blast
    next
      case 2
      with Cons obtain xs ys where "cs = xs @ sep @ ys" by blast
      then have "c # cs = (c # xs) @ sep @ ys" by simp
      then show ?thesis by blast
    qed
  next
    assume "\<exists>xs ys. c # cs = xs @ sep @ ys"
    then obtain xs ys where e: "c # cs = xs @ sep @ ys" by blast
    show "contains sep (c # cs)"
    proof (cases xs)
      case Nil
      with e have "take (length sep) (c # cs) = sep" by simp
      then show ?thesis by simp
    next
      case (Cons x xs')
      with e have "cs = xs' @ sep @ ys" by simp
      with Cons.IH have "contains sep cs" by blast
      then show ?thesis by simp
    qed
  qed
qed

lemma secondPart_absent: "\<not> contains ''/o/'' d \<Longrightarrow> secondPartBeforeQuery d = Inl TypeError"
  by (simp add: secondPartBeforeQuery_def split_str_absent)

lemma secondPart_present:
  assumes "contains ''/o/'' d"
  shows "\<exists>p. secondPartBeforeQuery d = Inr p"
proof -
  have "''/o/'' \<noteq> []" by simp
  from split_str_present[OF this assms] obtain p0 p1 ps where "split_str ''/o/'' d = p0 # p1 # ps"
    by blast
  then show ?thesis by (simp add: secondPartBeforeQuery_def)
qed

text \<open>
  Claim C10. When the decoded form of the input does not contain \<^verbatim>\<open>/o/\<close>,
  \<^verbatim>\<open>getStoragePathFromUrl\<close> throws \<^verbatim>\<open>TypeError\<close> instead of returning a path, and
  \<^verbatim>\<open>deleteDocument\<close> fails with "Failed to delete document" and leaves the storage
  as it was, the list of requested deletions included. The function is partial in
  exactly this way: it returns a path if and only if the input decodes and its decoded
  form contains \<^verbatim>\<open>/o/\<close>.
\<close>

theorem getStoragePathFromUrl_throws_without_o_segment:
  "(decodeURIComponent url = Inr d \<and> \<not> contains ''/o/'' d \<longrightarrow>
      getStoragePathFromUrl url = Inl TypeError \<and>
      deleteDocument stg url = (Inl FailedToDelete, stg)) \<and>
   ((\<exists>p. getStoragePathFromUrl url = Inr p) \<longleftrightarrow>
      (\<exists>d'. decodeURIComponent url = Inr d' \<and> contains ''/o/'' d'))"
proof -
  have a: "getStoragePathFromUrl url = Inl TypeError \<and>
      deleteDocument stg url = (Inl FailedToDelete, stg)"
    if "decodeURIComponent url = Inr d" "\<not> contains ''/o/'' d"
    using that by (simp add: getStoragePathFromUrl_def deleteDocument_def secondPart_absent)
  have b: "(\<exists>p. getStoragePathFromUrl url = Inr p) \<longleftrightarrow>
      (\<exists>d'. decodeURIComponent url = Inr d' \<and> contains ''/o/'' d')"
  proof (cases "decodeURIComponent url")
    case (Inl e)
    then show ?thesis by (simp add: getStoragePathFromUrl_def)
  next
    case (Inr d')
    show ?thesis
    proof (cases "contains ''/o/'' d'")
      case True
      then show ?thesis using Inr secondPart_present[OF True]
        by (simp add: getStoragePathFromUrl_def)
    next
      case False
      then show ?thesis using Inr by (simp add: getStoragePathFromUrl_def secondPart_absent)
    qed
  qed
  from a b show ?thesis by blast
qed

theorem getStoragePathFromUrl_throws_without_o_segment_witness:
  "decodeURIComponent ''https://example.com/file.png'' = Inr ''https://example.com/file.png'' \<and>
   \<not> contains ''/o/'' ''https://example.com/file.png'' \<and>
   getStoragePathFromUrl ''https://example.com/file.png'' = Inl TypeError \<and>
   deleteDocument storage1 ''https://example.com/file.png'' = (Inl FailedToDelete, storage1)"
proof -
  have d: "decodeURIComponent ''https://example.com/file.png'' = Inr ''https://example.com/file.png''"
    by code_simp
  have c: "\<not> contains ''/o/'' ''https://example.com/file.png''"
    by code_simp
  from d c getStoragePathFromUrl_throws_without_o_segment
             [of "''https://example.com/file.png''" "''https://example.com/file.png''" storage1]
  show ?thesis by blast
qed

text \<open>
  Claim C9 at three paths. For the path of the claim's example the function returns the
  path. For a path whose file extension contains a question mark, which
  \<^verbatim>\<open>uploadDocument\<close> takes over from the name of the uploaded file, the URL carries
  \<^verbatim>\<open>%3F\<close>; the function decodes the whole URL before it splits, so the decoded question
  mark ends the result early. For a path that itself contains \<^verbatim>\<open>/o/\<close> the result is
  the piece before it.
\<close>

theorem getStoragePathFromUrl_cuts_decoded_question_mark:
  "downloadURL ''app.appspot.com'' ''users/u1/documents/123.p?g'' ''t0'' =
     ''https://firebasestorage.googleapis.com/v0/b/app.appspot.com/o/users%2Fu1%2Fdocuments%2F123.p%3Fg?alt=media&token=t0'' \<and>
   getStoragePathFromUrl (downloadURL ''app.appspot.com'' ''users/u1/documents/123.p?g'' ''t0'') =
     Inr ''users/u1/documents/123.p'' \<and>
   getStoragePathFromUrl (downloadURL ''app.appspot.com'' ''users/o/documents/123.png'' ''t0'') =
     Inr ''users'' \<and>
   getStoragePathFromUrl (downloadURL ''app.appspot.com'' ''users/u1/documents/123.png'' ''t0'') =
     Inr ''users/u1/documents/123.png''"
  by code_simp

section \<open>Properties of the registration wizard\<close>

lemma spread_append:
  "distinct (map fst ps) \<Longrightarrow> fst ` set ps \<inter> fst ` set acc = {} \<Longrightarrow> spread ps acc = acc @ ps"
  unfolding spread_def
proof (induction ps arbitrary: acc)
  case Nil
  then show ?case by simp
next
  case (Cons a ps)
  obtain k v where a: "a = (k, v)" by (cases a)
  have fresh: "k \<notin> fst ` set acc" using Cons.prems(2) a by auto
  have "fst ` set ps \<inter> fst ` set (acc @ [(k, v)]) = {}"
    using Cons.prems a by auto
  then show ?case
    using Cons.IH[of "acc @ [(k, v)]"] Cons.prems(1) a fresh
    by (simp add: update_fresh)
qed

lemma spread_copy: "distinct (map fst ps) \<Longrightarrow> spread ps [] = ps"
  using spread_append[of ps "[]"] by simp

lemma field_update: "field (AList.update k v ps) k' = (if k' = k then v else field ps k')"
  by (simp add: field_def AList.update_conv')

lemma all_right_picks:
  "list_all (\<lambda>owner. \<not> nullish owner) owners \<Longrightarrow>
   all_right (map (\<lambda>owner. pick owner keys) owners) =
     Inr (map (\<lambda>owner. JObj (map (\<lambda>k. (k, getProp owner k)) keys)) owners)"
  by (induction owners) (simp_all add: pick_def)

lemma mergeStep_accepted:
  assumes "accepted t stepData"
  shows "\<exists>newData. mergeStep (Finite t) stepData base = Inr newData \<and>
           (\<forall>k. Some k \<noteq> merged_field t \<longrightarrow> field newData k = field base k)"
proof -
  consider "t = 1" | "t = 2" | "t = 3" | "t = 4" | "t = 5" | "t \<noteq> 1 \<and> t \<noteq> 2 \<and> t \<noteq> 3 \<and> t \<noteq> 4 \<and> t \<noteq> 5"
    by blast
  then show ?thesis
  proof cases
    case 1
    with assms show ?thesis
      by (simp add: accepted_def mergeStep_def pick_def merged_field_def field_update)
  next
    case 2
    with assms show ?thesis
      by (simp add: accepted_def mergeStep_def pick_def merged_field_def field_update)
  next
    case 3
    with assms show ?thesis
      by (simp add: accepted_def mergeStep_def pick_def merged_field_def field_update)
  next
    case 4
    with assms obtain owners where o: "stepData = JArr owners"
      and a: "list_all (\<lambda>owner. \<not> nullish owner) owners"
      by (auto simp: accepted_def split: jsval.splits)
    show ?thesis
      using 4 by (simp add: o mergeStep_def all_right_picks[OF a] merged_field_def field_update)
  next
    case 5
    with assms show ?thesis
      by (simp add: accepted_def mergeStep_def pick_def merged_field_def field_update)
  next
    case 6
    with assms have "enumerable_props stepData = []" by (simp add: accepted_def)
    with 6 show ?thesis
      by (simp add: mergeStep_def spread_def)
  qed
qed

text \<open>
  Claim C7. From any state whose draft is an object, \<^verbatim>\<open>handleEdit(t)\<close> followed by
  \<^verbatim>\<open>handleNext(stepData)\<close>, with step data of the shape of step \<open>t\<close>, ends at step
  \<open>t + 1\<close>, stores that step number, and leaves every field of the draft other than
  the one that step \<open>t\<close> merges as it was before the edit.
\<close>

theorem edit_then_advance_keeps_other_fields:
  assumes "accepted t stepData" and "formData w = JObj draft" and "distinct (map fst draft)"
  shows "\<exists>w'. handleNext stepData (handleEdit (Finite t) w) = Inr w' \<and>
           currentStep w' = Finite (t + 1) \<and>
           sessionStorage w' stepKey = Some (number_toString (Finite (t + 1))) \<and>
           (\<forall>k. Some k \<noteq> merged_field t \<longrightarrow> getProp (formData w') k = field draft k)"
proof -
  from mergeStep_accepted[OF assms(1), of draft] obtain newData where
    m: "mergeStep (Finite t) stepData draft = Inr newData"
    and f: "\<forall>k. Some k \<noteq> merged_field t \<longrightarrow> field newData k = field draft k"
    by blast
  have base: "spread (enumerable_props (formData (handleEdit (Finite t) w))) [] = draft"
    using assms(2,3) by (simp add: handleEdit_def spread_copy)
  have cs: "currentStep (handleEdit (Finite t) w) = Finite t"
    by (simp add: handleEdit_def)
  have "handleNext stepData (handleEdit (Finite t) w) =
          Inr ((handleEdit (Finite t) w)\<lparr> formData := JObj newData,
                 currentStep := plus1 (currentStep (handleEdit (Finite t) w)),
                 sessionStorage :=
                   setItem stepKey (number_toString (plus1 (currentStep (handleEdit (Finite t) w))))
                     (setItem dataKey (text_of (JSON_stringify (JObj newData)))
                        (sessionStorage (handleEdit (Finite t) w))) \<rparr>)"
    unfolding handleNext_def base using m by (simp add: cs)
  then show ?thesis
    using f by (simp add: handleEdit_def plus1_def setItem_def)
qed

theorem edit_then_advance_keeps_other_fields_witness:
  "accepted 2 package2 \<and>
   distinct (map fst (own_props (formData wizard6))) \<and>
   (\<exists>w'. handleNext package2 (handleEdit (Finite 2) wizard6) = Inr w' \<and>
         currentStep w' = Finite 3 \<and>
         sessionStorage w' stepKey = Some ''3'' \<and>
         getProp (formData w') ''country'' = JObj [(''name'', JStr ''LK'')] \<and>
         getProp (formData w') ''company'' =
           JObj [(''name'', JStr ''Acme''), (''type'', JStr ''LLC''), (''industry'', JStr ''IT'')] \<and>
         getProp (formData w') ''package'' =
           JObj [(''name'', JStr ''Pro''), (''price'', JNum (Finite 300))])"
proof -
  have a: "accepted 2 package2" by (simp add: accepted_def package2_def)
  have f: "formData wizard6 = JObj (own_props (formData wizard6))" by (simp add: wizard6_def)
  have d: "distinct (map fst (own_props (formData wizard6)))" by (simp add: wizard6_def)
  from edit_then_advance_keeps_other_fields[OF a f d]
  obtain w' where w': "handleNext package2 (handleEdit (Finite 2) wizard6) = Inr w'"
    and s: "currentStep w' = Finite (2 + 1)"
    and p: "sessionStorage w' stepKey = Some (number_toString (Finite (2 + 1)))"
    and k: "\<forall>k. Some k \<noteq> merged_field 2 \<longrightarrow>
              getProp (formData w') k = field (own_props (formData wizard6)) k"
    by blast
  have t3: "number_toString (Finite (2 + 1)) = ''3''" by code_simp
  from k have "getProp (formData w') ''country'' = JObj [(''name'', JStr ''LK'')]"
    and "getProp (formData w') ''company'' =
           JObj [(''name'', JStr ''Acme''), (''type'', JStr ''LLC''), (''industry'', JStr ''IT'')]"
    by (simp_all add: merged_field_def wizard6_def field_def)
  moreover have "getProp (formData w') ''package'' =
           JObj [(''name'', JStr ''Pro''), (''price'', JNum (Finite 300))]"
    using w' by (auto simp: handleNext_def handleEdit_def mergeStep_def pick_def package2_def
        field_def AList.update_conv')
  ultimately show ?thesis using a d w' s p t3 by auto
qed

subsection \<open>Advancing and retreating\<close>

lemma handleNext_accepted:
  assumes "currentStep w = Finite n" and "accepted n stepData"
  shows "\<exists>newData.
           mergeStep (Finite n) stepData (spread (enumerable_props (formData w)) []) = Inr newData \<and>
           handleNext stepData w =
             Inr (w\<lparr> formData := JObj newData,
                    currentStep := Finite (n + 1),
                    sessionStorage := (sessionStorage w)
                       (dataKey \<mapsto> text_of (JSON_stringify (JObj newData)),
                        stepKey \<mapsto> number_toString (Finite (n + 1))) \<rparr>)"
proof -
  from mergeStep_accepted[OF assms(2)] obtain newData where
    "mergeStep (Finite n) stepData (spread (enumerable_props (formData w)) []) = Inr newData"
    by blast
  then show ?thesis
    using assms(1) by (simp add: handleNext_def plus1_def setItem_def)
qed

lemma merge_contract:
  "\<not> nullish stepData \<Longrightarrow>
     mergeStep (Finite 1) stepData base =
       Inr (AList.update ''country'' (JObj [(''name'', getProp stepData ''name'')]) base)"
  "\<not> nullish stepData \<Longrightarrow>
     mergeStep (Finite 2) stepData base =
       Inr (AList.update ''package''
              (JObj [(''name'', getProp stepData ''name''), (''price'', getProp stepData ''price'')]) base)"
  "\<not> nullish stepData \<Longrightarrow>
     mergeStep (Finite 3) stepData base =
       Inr (AList.update ''company''
              (JObj [(''name'', getProp stepData ''name''), (''type'', getProp stepData ''type''),
                     (''industry'', getProp stepData ''industry'')]) base)"
  "\<not> nullish stepData \<Longrightarrow>
     mergeStep (Finite 5) stepData base =
       Inr (AList.update ''address''
              (JObj [(''street'', getProp stepData ''street''), (''city'', getProp stepData ''city''),
                     (''state'', getProp stepData ''state''),
                     (''postalCode'', getProp stepData ''postalCode''),
                     (''country'', getProp stepData ''country'')]) base)"
  "enumerable_props stepData = [] \<Longrightarrow> mergeStep (Finite 6) stepData base = Inr base"
  "enumerable_props stepData = [] \<Longrightarrow> mergeStep (Finite 7) stepData base = Inr base"
  by (simp_all add: mergeStep_def pick_def spread_def)

lemma merge_contract_owner:
  "list_all (\<lambda>owner. \<not> nullish owner) owners \<Longrightarrow>
     mergeStep (Finite 4) (JArr owners) base =
       Inr (AList.update ''owner''
              (JArr (map (\<lambda>owner. JObj [(''id'', getProp owner ''id''),
                                       (''fullName'', getProp owner ''fullName''),
                                       (''ownership'', getProp owner ''ownership''),
                                       (''isCEO'', getProp owner ''isCEO''),
                                       (''birthDate'', getProp owner ''birthDate''),
                                       (''document'', getProp owner ''document'')]) owners)) base)"
  by (simp add: mergeStep_def all_right_picks)

lemma handleBack_first:
  "currentStep w = Finite 1 \<Longrightarrow> handleBack w = w\<lparr> pushed := pushed w @ [''/dashboard/business''] \<rparr>"
  by (simp add: handleBack_def)

lemma handleBack_other:
  "currentStep w = Finite n \<Longrightarrow> n \<noteq> 1 \<Longrightarrow>
   handleBack w = w\<lparr> currentStep := Finite (n - 1),
                     sessionStorage := (sessionStorage w)(stepKey \<mapsto> number_toString (Finite (n - 1))) \<rparr>"
  by (simp add: handleBack_def minus1_def setItem_def)

text \<open>
  Claim C2 at step 6. The Review step's \<^verbatim>\<open>onNext\<close> is \<^verbatim>\<open>() => setCurrentStep(7)\<close>: it
  moves to step 7 and writes nothing to session storage. After \<^verbatim>\<open>handleNext\<close> has
  taken the wizard from step 5 to step 6 and stored \<^verbatim>\<open>"6"\<close>, the Review step's
  \<^verbatim>\<open>onNext\<close> leaves the stored step at \<^verbatim>\<open>"6"\<close> while the current step is 7.
\<close>

theorem reviewOnNext_leaves_step_unpersisted:
  "currentStep (reviewOnNext w) = Finite 7 \<and>
   sessionStorage (reviewOnNext w) = sessionStorage w \<and>
   map_sum id (\<lambda>w'. (currentStep w', sessionStorage w' stepKey)) (handleNext address5 wizard5)
     = Inr (Finite 6, Some ''6'') \<and>
   map_sum id (\<lambda>w'. (currentStep (reviewOnNext w'), sessionStorage (reviewOnNext w') stepKey))
     (handleNext address5 wizard5) = Inr (Finite 7, Some ''6'')"
proof -
  have t6: "number_toString (Finite 6) = ''6''" by code_simp
  have "accepted 5 address5" by (simp add: accepted_def address5_def)
  from handleNext_accepted[OF _ this, of wizard5] obtain newData where
    "handleNext address5 wizard5 =
             Inr (wizard5\<lparr> formData := JObj newData,
                    currentStep := Finite (5 + 1),
                    sessionStorage := (sessionStorage wizard5)
                       (dataKey \<mapsto> text_of (JSON_stringify (JObj newData)),
                        stepKey \<mapsto> number_toString (Finite (5 + 1))) \<rparr>)"
    by (auto simp: wizard5_def)
  then show ?thesis
    by (simp add: reviewOnNext_def t6)
qed

section \<open>Properties of the session store\<close>

subsection \<open>Numbers as text, read back\<close>

declare digits.simps [simp del]

lemma of_char_digit_char: "d < 10 \<Longrightarrow> (of_char (digit_char d) :: nat) = 48 + d"
  by (simp add: digit_char_def)

lemma is_digit_digit_char: "d < 10 \<Longrightarrow> is_digit (digit_char d)"
  by (simp add: is_digit_def of_char_digit_char)

lemma digits_all: "\<forall>c \<in> set (digits n). is_digit c"
proof (induction n rule: digits.induct)
  case (1 n)
  show ?case
  proof (cases "n < 10")
    case True
    then show ?thesis by (simp add: digits.simps[of n] is_digit_digit_char)
  next
    case False
    have "n mod 10 < 10" by simp
    then have "is_digit (digit_char (n mod 10))" by (rule is_digit_digit_char)
    with 1[OF False] False show ?thesis by (simp add: digits.simps[of n])
  qed
qed

lemma digits_value_snoc:
  "digits_value (xs @ [c]) = 10 * digits_value xs + (of_char c - 48)"
  by (simp add: digits_value_def)

lemma digits_value_digits: "digits_value (digits n) = n"
proof (induction n rule: digits.induct)
  case (1 n)
  show ?case
  proof (cases "n < 10")
    case True
    then show ?thesis
      by (simp add: digits.simps[of n] digits_value_def of_char_digit_char)
  next
    case False
    have m: "n mod 10 < 10" by simp
    have "digits_value (digits n) = 10 * digits_value (digits (n div 10)) + (of_char (digit_char (n mod 10)) - 48)"
      using False by (simp add: digits.simps[of n] digits_value_snoc)
    also have "\<dots> = 10 * (n div 10) + n mod 10"
      using 1[OF False] by (simp add: of_char_digit_char[OF m])
    finally show ?thesis by simp
  qed
qed

lemma digits_ne: "digits n \<noteq> []"
  by (subst digits.simps) simp

lemma digits_hd_nonzero: "0 < n \<Longrightarrow> hd (digits n) \<noteq> CHR ''0''"
proof (induction n rule: digits.induct)
  case (1 n)
  show ?case
  proof (cases "n < 10")
    case True
    with 1(2) have "(of_char (digit_char n) :: nat) \<noteq> of_char (CHR ''0'')"
      by (simp add: of_char_digit_char)
    then have "digit_char n \<noteq> CHR ''0''" by auto
    with True show ?thesis by (simp add: digits.simps[of n])
  next
    case False
    then have "0 < n div 10" by simp
    from 1(1)[OF False this] False show ?thesis
      by (simp add: digits.simps[of n] digits_ne)
  qed
qed

lemma digit_char_0: "digit_char 0 = CHR ''0''"
  by code_simp

lemma digits_zero: "digits 0 = ''0''"
  by (simp add: digits.simps[of 0] digit_char_0)

lemma digits_no_leading_zero: "\<not> (length (digits n) > 1 \<and> hd (digits n) = CHR ''0'')"
proof (cases "n = 0")
  case True
  then show ?thesis by (simp add: digits_zero)
next
  case False
  then show ?thesis using digits_hd_nonzero[of n] by simp
qed

lemma takeWhile_prefix:
  "\<forall>c \<in> set xs. P c \<Longrightarrow> rest = [] \<or> \<not> P (hd rest) \<Longrightarrow>
   takeWhile P (xs @ rest) = xs \<and> dropWhile P (xs @ rest) = rest"
  by (induction xs) (auto simp: takeWhile_eq_Nil_iff dropWhile_eq_self_iff)

lemma parse_number_digits:
  assumes "number_end rest"
  shows "parse_number (digits n @ rest) = Ok (JNum (Finite (int n)), rest)"
proof -
  have nd: "\<not> is_digit (CHR ''-'')" by (simp add: is_digit_def)
  have h: "hd (digits n @ rest) \<noteq> CHR ''-''"
    using digits_all[of n] digits_ne[of n] nd by (cases "digits n") auto
  have tw: "takeWhile is_digit (digits n @ rest) = digits n"
    and dw: "dropWhile is_digit (digits n @ rest) = rest"
    using takeWhile_prefix[of "digits n" is_digit rest] digits_all[of n] assms
    by (auto simp: number_end_def)
  show ?thesis
    unfolding parse_number_def Let_def
    using h tw dw digits_ne[of n] digits_no_leading_zero[of n] assms
    by (auto simp: digits_value_digits number_end_def)
qed

lemma parse_number_neg:
  assumes "number_end rest"
  shows "parse_number (CHR ''-'' # digits n @ rest) = Ok (JNum (Finite (- int n)), rest)"
proof -
  have tw: "takeWhile is_digit (digits n @ rest) = digits n"
    and dw: "dropWhile is_digit (digits n @ rest) = rest"
    using takeWhile_prefix[of "digits n" is_digit rest] digits_all[of n] assms
    by (auto simp: number_end_def)
  show ?thesis
    unfolding parse_number_def Let_def
    using tw dw digits_ne[of n] digits_no_leading_zero[of n] assms
    by (auto simp: digits_value_digits number_end_def)
qed

lemma parse_number_toString:
  assumes "number_end rest"
  shows "parse_number (number_toString (Finite i) @ rest) = Ok (JNum (Finite i), rest)"
proof (cases "i < 0")
  case True
  then show ?thesis
    using parse_number_neg[OF assms, of "nat (- i)"] by (simp add: number_toString_def)
next
  case False
  then show ?thesis
    using parse_number_digits[OF assms, of "nat i"] by (simp add: number_toString_def)
qed

lemma parseInt_toString: "parseInt (number_toString x) = x"
proof (cases x)
  case (Finite i)
  have sp: "\<not> is_js_space (CHR ''-'')" by (simp add: is_js_space_def)
  have dsp: "\<not> is_js_space (hd (digits n))" for n
  proof -
    have "is_digit (hd (digits n))" using digits_all[of n] digits_ne[of n] by (cases "digits n") auto
    then show ?thesis by (auto simp: is_digit_def is_js_space_def)
  qed
  have dm: "hd (digits n) \<noteq> CHR ''-''" "hd (digits n) \<noteq> CHR ''+''" for n
  proof -
    have d: "is_digit (hd (digits n))" using digits_all[of n] digits_ne[of n] by (cases "digits n") auto
    show "hd (digits n) \<noteq> CHR ''-''" "hd (digits n) \<noteq> CHR ''+''"
      using d by (auto simp: is_digit_def)
  qed
  have tw: "takeWhile is_digit (digits n) = digits n" for n
    using takeWhile_prefix[of "digits n" is_digit "[]"] digits_all[of n] by simp
  have dw: "dropWhile is_js_space (digits n) = digits n" for n
    using dsp[of n] digits_ne[of n] by (cases "digits n") auto
  show ?thesis
  proof (cases "i < 0")
    case True
    then show ?thesis
      unfolding Finite parseInt_def Let_def number_toString_def
      using sp digits_ne[of "nat (- i)"]
      by (simp add: digits_value_digits tw)
  next
    case False
    then show ?thesis
      unfolding Finite parseInt_def Let_def number_toString_def
      using dm[of "nat i"] digits_ne[of "nat i"]
      by (simp add: digits_value_digits tw dw)
  qed
next
  case NaN
  show ?thesis
    unfolding NaN by code_simp
qed


subsection \<open>Strings as JSON text, read back\<close>

lemma char_codes:
  "char_of (34 :: nat) = CHR 0x22" "char_of (92 :: nat) = CHR 0x5C"
  "char_of (8 :: nat) = CHR 0x08" "char_of (9 :: nat) = CHR 0x09"
  "char_of (10 :: nat) = CHR 0x0A" "char_of (12 :: nat) = CHR 0x0C"
  "char_of (13 :: nat) = CHR 0x0D"
  by code_simp+

lemma char_eq_code: "(of_char c :: nat) = k \<Longrightarrow> c = char_of k"
  by (metis char_of_char)

lemma hex_value_lower: "d < 16 \<Longrightarrow> hex_value (hex_lower d) = Some d"
  by (auto simp: hex_value_def hex_lower_def Let_def)

lemma hex_value_zero: "hex_value (CHR ''0'') = Some 0"
  by (simp add: hex_value_def)

lemma hex4_control:
  "n < 32 \<Longrightarrow>
   hex4 (CHR ''0'' # CHR ''0'' # hex_lower (n div 16) # hex_lower (n mod 16) # tail) = Some (n, tail)"
proof -
  assume n: "n < 32"
  then have a: "n div 16 < 16" by simp
  have b: "n mod 16 < 16" by simp
  show ?thesis
    by (simp add: hex4_def hex_value_zero hex_value_lower[OF a] hex_value_lower[OF b])
qed

lemma parse_chars_escape:
  "parse_chars (escape_char c @ tail) = consChar c (parse_chars tail)"
proof -
  define n :: nat where "n = of_char c"
  have c: "c = char_of n" using char_eq_code[of c n] by (simp add: n_def)
  consider "n = 34" | "n = 92" | "n = 8" | "n = 9" | "n = 10" | "n = 12" | "n = 13"
    | "n < 32" "n \<noteq> 8" "n \<noteq> 9" "n \<noteq> 10" "n \<noteq> 12" "n \<noteq> 13"
    | "32 \<le> n" "n \<noteq> 34" "n \<noteq> 92"
    by linarith
  then show ?thesis
  proof cases
    case 1
    then have cc: "c = CHR 0x22"
      using c by (simp add: char_codes)
    have e: "escape_char (CHR 0x22) = [CHR 0x5C, CHR 0x22]"
      by code_simp
    show ?thesis unfolding cc e by (simp add: unescape_def)
  next
    case 2
    then have cc: "c = CHR 0x5C"
      using c by (simp add: char_codes)
    have e: "escape_char (CHR 0x5C) = [CHR 0x5C, CHR 0x5C]"
      by code_simp
    show ?thesis unfolding cc e by (simp add: unescape_def)
  next
    case 3
    then have cc: "c = CHR 0x08"
      using c by (simp add: char_codes)
    have e: "escape_char (CHR 0x08) = [CHR 0x5C, CHR ''b'']"
      by code_simp
    show ?thesis unfolding cc e by (simp add: unescape_def)
  next
    case 4
    then have cc: "c = CHR 0x09"
      using c by (simp add: char_codes)
    have e: "escape_char (CHR 0x09) = [CHR 0x5C, CHR ''t'']"
      by code_simp
    show ?thesis unfolding cc e by (simp add: unescape_def)
  next
    case 5
    then have cc: "c = CHR 0x0A"
      using c by (simp add: char_codes)
    have e: "escape_char (CHR 0x0A) = [CHR 0x5C, CHR ''n'']"
      by code_simp
    show ?thesis unfolding cc e by (simp add: unescape_def)
  next
    case 6
    then have cc: "c = CHR 0x0C"
      using c by (simp add: char_codes)
    have e: "escape_char (CHR 0x0C) = [CHR 0x5C, CHR ''f'']"
      by code_simp
    show ?thesis unfolding cc e by (simp add: unescape_def)
  next
    case 7
    then have cc: "c = CHR 0x0D"
      using c by (simp add: char_codes)
    have e: "escape_char (CHR 0x0D) = [CHR 0x5C, CHR ''r'']"
      by code_simp
    show ?thesis unfolding cc e by (simp add: unescape_def)
  next
    case 8
    then have e: "escape_char c =
        [CHR 0x5C, CHR ''u'', CHR ''0'', CHR ''0'', hex_lower (n div 16), hex_lower (n mod 16)]"
      by (simp add: escape_char_def n_def[symmetric])
    show ?thesis
      unfolding e using 8(1) c
      by (simp add: unescape_def hex4_control)
  next
    case 9
    then have e: "escape_char c = [c]"
      by (simp add: escape_char_def n_def[symmetric])
    have "c \<noteq> CHR 0x22" "c \<noteq> CHR 0x5C" "\<not> (of_char c :: nat) < 32"
      using 9 by (auto simp: n_def)
    then show ?thesis unfolding e by simp
  qed
qed

lemma parse_chars_escaped:
  "parse_chars (concat (map escape_char s) @ CHR 0x22 # rest) = Ok (s, rest)"
proof (induction s)
  case Nil
  then show ?case by simp
next
  case (Cons c s)
  have "parse_chars (escape_char c @ (concat (map escape_char s) @ CHR 0x22 # rest))
          = consChar c (parse_chars (concat (map escape_char s) @ CHR 0x22 # rest))"
    by (rule parse_chars_escape)
  then show ?case using Cons.IH by (simp add: consChar_def)
qed

lemma parse_value_string:
  "parse_value (quoteJSONString s @ rest) = Ok (JStr s, rest)"
proof -
  have q: "\<not> is_ws (CHR 0x22)" by (simp add: is_ws_def)
  show ?thesis
    using q by (simp add: quoteJSONString_def parse_chars_escaped)
qed


subsection \<open>Literals and numbers as JSON text, read back\<close>

declare parse_elements.simps [simp del] parse_members.simps [simp del]

lemma value_end_number_end: "value_end rest \<Longrightarrow> number_end rest"
  by (auto simp: value_end_def number_end_def is_digit_def)

lemma value_end_simps [simp]:
  "value_end (CHR '','' # r)" "value_end (CHR '']'' # r)" "value_end (CHR ''}'' # r)" "value_end []"
  by (simp_all add: value_end_def)

lemma not_ws [simp]:
  "\<not> is_ws (CHR 0x22)" "\<not> is_ws (CHR '','')" "\<not> is_ws (CHR '':'')" "\<not> is_ws (CHR '']'')"
  "\<not> is_ws (CHR ''}'')" "\<not> is_ws (CHR ''['')" "\<not> is_ws (CHR ''{'')" "\<not> is_ws (CHR ''n'')"
  "\<not> is_ws (CHR ''t'')" "\<not> is_ws (CHR ''f'')" "\<not> is_ws (CHR ''-'')"
  by (simp_all add: is_ws_def)

lemma digit_not_ws: "is_digit c \<Longrightarrow> \<not> is_ws c"
  by (auto simp: is_digit_def is_ws_def)

lemma digit_not_bracket: "is_digit c \<Longrightarrow> c \<noteq> CHR '']'' \<and> c \<noteq> CHR ''}'' \<and> c \<noteq> CHR ''{'' \<and> c \<noteq> CHR ''[''
    \<and> c \<noteq> CHR 0x22 \<and> c \<noteq> CHR ''-''"
  by (auto simp: is_digit_def)

lemma skip_ws_start: "value_start t \<Longrightarrow> skip_ws (t @ r) = t @ r"
  by (cases t) (auto simp: value_start_def)

lemma digits_hd_digit: "is_digit (hd (digits n))"
  using digits_all[of n] digits_ne[of n] by (cases "digits n") auto

lemma number_text_start: "value_start (number_toString (Finite i))"
proof (cases "i < 0")
  case True
  then show ?thesis by (simp add: number_toString_def value_start_def)
next
  case False
  then show ?thesis
    using digits_hd_digit[of "nat i"] digits_ne[of "nat i"]
    by (simp add: number_toString_def value_start_def digit_not_ws digit_not_bracket)
qed

lemma serialize_None: "serialize v = None \<longleftrightarrow> v = JUndefined"
  by (cases v) simp_all

lemma serialize_start: "serialize v = Some t \<Longrightarrow> value_start t"
proof (cases v)
  case (JNum x)
  assume "serialize v = Some t"
  then show ?thesis
    using JNum number_text_start by (cases x) (auto simp: value_start_def)
qed (auto simp: value_start_def quoteJSONString_def split: if_splits)

lemma parse_value_null: "parse_value (''null'' @ r) = Ok (JNull, r)"
  by (simp add: is_digit_def)

lemma parse_value_true: "parse_value (''true'' @ r) = Ok (JBool True, r)"
  by (simp add: is_digit_def)

lemma parse_value_false: "parse_value (''false'' @ r) = Ok (JBool False, r)"
  by (simp add: is_digit_def)

lemma parse_value_number:
  assumes "value_end r"
  shows "parse_value (number_toString (Finite i) @ r) = Ok (JNum (Finite i), r)"
proof -
  from number_text_start[of i] obtain c cs where t: "number_toString (Finite i) = c # cs"
    and ws: "\<not> is_ws c" by (cases "number_toString (Finite i)") (auto simp: value_start_def)
  have st: "c = CHR ''-'' \<or> is_digit c"
  proof (cases "i < 0")
    case True
    with t show ?thesis by (simp add: number_toString_def)
  next
    case False
    with t digits_hd_digit[of "nat i"] show ?thesis by (simp add: number_toString_def)
  qed
  then have nb: "c \<noteq> CHR ''{''" "c \<noteq> CHR ''[''" "c \<noteq> CHR 0x22"
    using digit_not_bracket[of c] by auto
  have "parse_value ((c # cs) @ r) = parse_number ((c # cs) @ r)"
    using ws nb st by simp
  then show ?thesis
    using parse_number_toString[OF value_end_number_end[OF assms], of i] by (simp add: t)
qed


subsection \<open>Arrays as JSON text, read back\<close>

lemma join_comma_Cons:
  "join_comma (x # xs) = (if xs = [] then x else x @ CHR '','' # join_comma xs)"
  by (cases xs) simp_all

lemma element_start: "value_start (element_text x)"
proof (cases "serialize x")
  case None
  then show ?thesis by (simp add: element_text_def value_start_def)
next
  case (Some t)
  then show ?thesis using serialize_start[OF Some] by (simp add: element_text_def)
qed

lemma element_parses:
  assumes "parses_back x" and "value_end r"
  shows "parse_value (element_text x @ r) = Ok (element_value x, r)"
proof (cases "serialize x")
  case None
  then have "x = JUndefined" by (simp add: serialize_None)
  then show ?thesis
    using parse_value_null[of r] by (simp add: element_text_def element_value_def)
next
  case (Some t)
  then have "x \<noteq> JUndefined" by auto
  with assms Some show ?thesis
    by (simp add: parses_back_def element_text_def element_value_def)
qed

lemma elements_parse:
  assumes "\<forall>x \<in> set xs. parses_back x" and "xs \<noteq> []"
  shows "parse_elements (join_comma (map element_text xs) @ CHR '']'' # rest)
           = Ok (map element_value xs, rest)"
  using assms
proof (induction xs)
  case Nil
  then show ?case by simp
next
  case (Cons x xs)
  from Cons.prems have px: "parses_back x" by simp
  show ?case
  proof (cases "xs = []")
    case True
    have "parse_value (element_text x @ CHR '']'' # rest) = Ok (element_value x, CHR '']'' # rest)"
      using px by (rule element_parses) simp
    then show ?thesis
      using True by (subst parse_elements.simps) simp
  next
    case False
    define tail where "tail = join_comma (map element_text xs) @ CHR '']'' # rest"
    have j: "join_comma (map element_text (x # xs)) @ CHR '']'' # rest
               = element_text x @ CHR '','' # tail"
      using False by (simp add: join_comma_Cons tail_def)
    have pv: "parse_value (element_text x @ CHR '','' # tail) = Ok (element_value x, CHR '','' # tail)"
      using px by (rule element_parses) simp
    have ih: "parse_elements tail = Ok (map element_value xs, rest)"
      unfolding tail_def using Cons.IH Cons.prems False by simp
    show ?thesis
      unfolding j by (subst parse_elements.simps) (simp add: pv ih)
  qed
qed

lemma parse_value_array:
  assumes "\<forall>x \<in> set xs. parses_back x" and "value_end rest"
  shows "parse_value ((CHR ''['' # join_comma (map element_text xs) @ '']'') @ rest)
           = Ok (JArr (map element_value xs), rest)"
proof (cases "xs = []")
  case True
  then show ?thesis by simp
next
  case False
  then obtain x xs' where xs: "xs = x # xs'" by (cases xs) auto
  have "value_start (join_comma (map element_text xs))"
    using element_start[of x]
    by (cases "element_text x") (auto simp: xs join_comma_Cons value_start_def)
  then obtain d body where b: "join_comma (map element_text xs) = d # body"
    and nws: "\<not> is_ws d" and nb: "d \<noteq> CHR '']''"
    by (cases "join_comma (map element_text xs)") (auto simp: value_start_def)
  have "parse_elements ((d # body) @ CHR '']'' # rest) = Ok (map element_value xs, rest)"
    using elements_parse[OF assms(1) False, of rest] by (simp add: b)
  then show ?thesis
    using nws nb by (simp add: b)
qed


subsection \<open>Objects as JSON text, read back\<close>

lemma member_texts_Nil [simp]: "member_texts [] = []"
  by (simp add: member_texts_def)

lemma member_values_Nil [simp]: "member_values [] = []"
  by (simp add: member_values_def)

lemma member_texts_undefined [simp]: "member_texts ((k, JUndefined) # kvs) = member_texts kvs"
  by (simp add: member_texts_def)

lemma member_values_undefined [simp]: "member_values ((k, JUndefined) # kvs) = member_values kvs"
  by (simp add: member_values_def)

lemma member_texts_defined:
  "serialize v = Some t \<Longrightarrow>
   member_texts ((k, v) # kvs) = (quoteJSONString k @ CHR '':'' # t) # member_texts kvs"
  by (simp add: member_texts_def)

lemma member_values_defined:
  "v \<noteq> JUndefined \<Longrightarrow> member_values ((k, v) # kvs) = (k, revive v) # member_values kvs"
  by (simp add: member_values_def)

lemma member_texts_empty: "member_texts kvs = [] \<Longrightarrow> member_values kvs = []"
proof (induction kvs)
  case Nil
  then show ?case by simp
next
  case (Cons kv kvs)
  obtain k v where kv: "kv = (k, v)" by (cases kv)
  show ?case
  proof (cases "serialize v")
    case None
    then have "v = JUndefined" by (simp add: serialize_None)
    with Cons kv show ?thesis by simp
  next
    case (Some t)
    with Cons.prems kv show ?thesis by (simp add: member_texts_defined)
  qed
qed

lemma member_key_parses:
  "parse_chars (concat (map escape_char k) @ CHR 0x22 # CHR '':'' # t @ r)
     = Ok (k, CHR '':'' # t @ r)"
  by (simp add: parse_chars_escaped)

lemma member_value_parses:
  assumes "parses_back v" and "serialize v = Some t" and "value_end r"
  shows "parse_value (t @ r) = Ok (revive v, r)"
  using assms by (simp add: parses_back_def)

lemma members_parse:
  assumes "\<forall>kv \<in> set kvs. parses_back (snd kv)" and "member_texts kvs \<noteq> []"
  shows "parse_members (join_comma (member_texts kvs) @ CHR ''}'' # rest)
           = Ok (member_values kvs, rest)"
  using assms
proof (induction kvs)
  case Nil
  then show ?case by simp
next
  case (Cons kv kvs)
  obtain k v where kv: "kv = (k, v)" by (cases kv)
  from Cons.prems kv have pv: "parses_back v" and pk: "\<forall>kv \<in> set kvs. parses_back (snd kv)"
    by simp_all
  show ?case
  proof (cases "serialize v")
    case None
    then have "v = JUndefined" by (simp add: serialize_None)
    with Cons kv pk show ?thesis by simp
  next
    case (Some t)
    then have vd: "v \<noteq> JUndefined" by auto
    have mt: "member_texts (kv # kvs) = (quoteJSONString k @ CHR '':'' # t) # member_texts kvs"
      unfolding kv using Some by (rule member_texts_defined)
    have mv: "member_values (kv # kvs) = (k, revive v) # member_values kvs"
      unfolding kv using vd by (rule member_values_defined)
    show ?thesis
    proof (cases "member_texts kvs = []")
      case True
      then have e: "member_values kvs = []" by (rule member_texts_empty)
      have tx: "join_comma (member_texts (kv # kvs)) @ CHR ''}'' # rest =
                 CHR 0x22 # (concat (map escape_char k) @ CHR 0x22 # CHR '':'' # t @ CHR ''}'' # rest)"
        by (simp add: mt True quoteJSONString_def)
      have pc: "parse_chars (concat (map escape_char k) @ CHR 0x22 # CHR '':'' # t @ CHR ''}'' # rest)
                  = Ok (k, CHR '':'' # t @ CHR ''}'' # rest)"
        and pval: "parse_value (t @ CHR ''}'' # rest) = Ok (revive v, CHR ''}'' # rest)"
        using member_key_parses[of k t "CHR ''}'' # rest"]
          member_value_parses[OF pv Some, of "CHR ''}'' # rest"] by simp_all
      show ?thesis
        unfolding tx mv e
        by (subst parse_members.simps) (simp add: pc pval)
    next
      case False
      define tail where "tail = join_comma (member_texts kvs) @ CHR ''}'' # rest"
      have tx: "join_comma (member_texts (kv # kvs)) @ CHR ''}'' # rest =
                 CHR 0x22 # (concat (map escape_char k) @ CHR 0x22 # CHR '':'' # t @ CHR '','' # tail)"
        using False by (simp add: mt join_comma_Cons quoteJSONString_def tail_def)
      have pc: "parse_chars (concat (map escape_char k) @ CHR 0x22 # CHR '':'' # t @ CHR '','' # tail)
                  = Ok (k, CHR '':'' # t @ CHR '','' # tail)"
        and pval: "parse_value (t @ CHR '','' # tail) = Ok (revive v, CHR '','' # tail)"
        using member_key_parses[of k t "CHR '','' # tail"]
          member_value_parses[OF pv Some, of "CHR '','' # tail"] by simp_all
      have ih: "parse_members tail = Ok (member_values kvs, rest)"
        unfolding tail_def using Cons.IH[OF pk False] .
      show ?thesis
        unfolding tx mv
        by (subst parse_members.simps) (simp add: pc pval ih)
    qed
  qed
qed

lemma member_texts_start:
  "member_texts kvs \<noteq> [] \<Longrightarrow> \<exists>body. join_comma (member_texts kvs) = CHR 0x22 # body"
proof (induction kvs)
  case Nil
  then show ?case by simp
next
  case (Cons kv kvs)
  obtain k v where kv: "kv = (k, v)" by (cases kv)
  show ?case
  proof (cases "serialize v")
    case None
    then have "v = JUndefined" by (simp add: serialize_None)
    with Cons kv show ?thesis by simp
  next
    case (Some t)
    then show ?thesis
      unfolding kv by (simp add: member_texts_defined join_comma_Cons quoteJSONString_def)
  qed
qed

lemma parse_value_object:
  assumes "\<forall>kv \<in> set kvs. parses_back (snd kv)" and "value_end rest"
  shows "parse_value ((CHR ''{'' # join_comma (member_texts kvs) @ ''}'') @ rest)
           = Ok (JObj (spread (member_values kvs) []), rest)"
proof (cases "member_texts kvs = []")
  case True
  then have "member_values kvs = []" by (rule member_texts_empty)
  then show ?thesis using True by (simp add: spread_def)
next
  case False
  from member_texts_start[OF False] obtain body where
    b: "join_comma (member_texts kvs) = CHR 0x22 # body" by blast
  have "parse_members ((CHR 0x22 # body) @ CHR ''}'' # rest) = Ok (member_values kvs, rest)"
    using members_parse[OF assms(1) False, of rest] by (simp add: b)
  then show ?thesis by (simp add: b)
qed

subsection \<open>JSON.parse after JSON.stringify\<close>

lemma serialize_obj_text:
  "serialize (JObj kvs) = Some (CHR ''{'' # join_comma (member_texts kvs) @ ''}'')"
  "serialize (JInst c kvs) = Some (CHR ''{'' # join_comma (member_texts kvs) @ ''}'')"
  by (simp_all add: member_texts_def)

lemma serialize_arr_text:
  "serialize (JArr xs) = Some (CHR ''['' # join_comma (map element_text xs) @ '']'')"
  by (simp add: element_text_def[abs_def])

lemma revive_obj:
  "revive (JObj kvs) = JObj (spread (member_values kvs) [])"
  "revive (JInst c kvs) = JObj (spread (member_values kvs) [])"
  by (simp_all add: member_values_def)

lemma revive_arr: "revive (JArr xs) = JArr (map element_value xs)"
  by (simp add: element_value_def[abs_def])

lemma parses_backI:
  "(\<And>t rest. serialize v = Some t \<Longrightarrow> value_end rest \<Longrightarrow>
      parse_value (t @ rest) = Ok (revive v, rest)) \<Longrightarrow> parses_back v"
  by (simp add: parses_back_def)

lemma parses_back_all: "parses_back v"
proof (induction v rule: serialize.induct)
  case 1
  show ?case by (simp add: parses_back_def)
next
  case 2
  show ?case using parse_value_null by (simp add: parses_back_def)
next
  case (3 b)
  show ?case using parse_value_true parse_value_false by (simp add: parses_back_def)
next
  case (4 x)
  show ?case
  proof (cases x)
    case (Finite i)
    then show ?thesis using parse_value_number[of _ i] by (simp add: parses_back_def)
  next
    case NaN
    then show ?thesis using parse_value_null by (simp add: parses_back_def)
  qed
next
  case (5 s)
  show ?case using parse_value_string[of s] by (simp add: parses_back_def)
next
  case (6 xs)
  then have all: "\<forall>x \<in> set xs. parses_back x" by simp
  show ?case
  proof (rule parses_backI)
    fix t rest
    assume "serialize (JArr xs) = Some t" and e: "value_end rest"
    then have t: "t = CHR ''['' # join_comma (map element_text xs) @ '']''"
      by (simp only: serialize_arr_text option.inject)
    show "parse_value (t @ rest) = Ok (revive (JArr xs), rest)"
      unfolding t revive_arr using all e by (rule parse_value_array)
  qed
next
  case (7 kvs)
  then have all: "\<forall>kv \<in> set kvs. parses_back (snd kv)" by auto
  show ?case
  proof (rule parses_backI)
    fix t rest
    assume "serialize (JObj kvs) = Some t" and e: "value_end rest"
    then have t: "t = CHR ''{'' # join_comma (member_texts kvs) @ ''}''"
      by (simp only: serialize_obj_text option.inject)
    show "parse_value (t @ rest) = Ok (revive (JObj kvs), rest)"
      unfolding t revive_obj using all e by (rule parse_value_object)
  qed
next
  case (8 c kvs)
  then have all: "\<forall>kv \<in> set kvs. parses_back (snd kv)" by auto
  show ?case
  proof (rule parses_backI)
    fix t rest
    assume "serialize (JInst c kvs) = Some t" and e: "value_end rest"
    then have t: "t = CHR ''{'' # join_comma (member_texts kvs) @ ''}''"
      by (simp only: serialize_obj_text option.inject)
    show "parse_value (t @ rest) = Ok (revive (JInst c kvs), rest)"
      unfolding t revive_obj using all e by (rule parse_value_object)
  qed
qed

lemma JSON_parse_stringify:
  assumes "JSON_stringify v = Some t"
  shows "JSON_parse t = Ok (revive v)"
proof -
  from assms have s: "serialize v = Some t" by (simp add: JSON_stringify_def)
  have e: "value_end []" by simp
  from parses_back_all[of v] s e have "parse_value (t @ []) = Ok (revive v, [])"
    unfolding parses_back_def by blast
  then show ?thesis by (simp add: JSON_parse_def)
qed




subsection \<open>The parser consumes its input\<close>

text \<open>A value, a list of elements and a list of members are each read from a non-empty
  prefix of the text, so the length tests in \<open>parse_elements\<close> and \<open>parse_members\<close>
  always succeed.\<close>

lemma parse_number_length:
  "parse_number s = Ok (v, rest) \<Longrightarrow> length rest < length s"
proof -
  assume p: "parse_number s = Ok (v, rest)"
  define s1 where "s1 = (if s \<noteq> [] \<and> hd s = CHR ''-'' then tl s else s)"
  from p have ne: "takeWhile is_digit s1 \<noteq> []" and r: "rest = dropWhile is_digit s1"
    by (auto simp: parse_number_def Let_def s1_def split: if_splits)
  have "length (takeWhile is_digit s1) + length (dropWhile is_digit s1) = length s1"
    by (metis length_append takeWhile_dropWhile_id)
  with ne r have "length rest < length s1" by (cases "takeWhile is_digit s1") auto
  moreover have "length s1 \<le> length s" by (simp add: s1_def)
  ultimately show ?thesis by simp
qed

lemma parse_length:
  "\<forall>v rest. parse_value s = Ok (v, rest) \<longrightarrow> length rest < length s"
  "\<forall>vs rest. parse_elements s2 = Ok (vs, rest) \<longrightarrow> length rest < length s2"
  "\<forall>kvs rest. parse_members s3 = Ok (kvs, rest) \<longrightarrow> length rest < length s3"
proof (induction s and s2 and s3 rule: parse_value_parse_elements_parse_members.induct)
  case 1
  then show ?case by simp
next
  case (2 c cs)
  show ?case
  proof (intro allI impI)
    fix v rest
    assume p: "parse_value (c # cs) = Ok (v, rest)"
    consider (ws) "is_ws c"
      | (obj) "\<not> is_ws c" "c = CHR ''{''"
      | (arr) "\<not> is_ws c" "c \<noteq> CHR ''{''" "c = CHR ''[''"
      | (str) "\<not> is_ws c" "c \<noteq> CHR ''{''" "c \<noteq> CHR ''[''" "c = CHR 0x22"
      | (other) "\<not> is_ws c" "c \<noteq> CHR ''{''" "c \<noteq> CHR ''[''" "c \<noteq> CHR 0x22"
      by blast
    then show "length rest < length (c # cs)"
    proof cases
      case ws
      with p 2(1) have "length rest < length cs" by simp
      then show ?thesis by simp
    next
      case obj
      with p obtain d r where sk: "skip_ws cs = d # r"
        by (cases "skip_ws cs") auto
      show ?thesis
      proof (cases "d = CHR ''}''")
        case True
        with p obj sk have "rest = r" by simp
        with skip_ws_Cons_length[OF sk] show ?thesis by simp
      next
        case False
        with p obj sk obtain kvs where "parse_members (d # r) = Ok (kvs, rest)"
          by (auto split: outcome.splits)
        with 2(2)[OF obj sk False] have "length rest < length (d # r)" by blast
        with skip_ws_length[of cs] sk show ?thesis by simp
      qed
    next
      case arr
      with p obtain d r where sk: "skip_ws cs = d # r"
        by (cases "skip_ws cs") auto
      show ?thesis
      proof (cases "d = CHR '']''")
        case True
        with p arr sk have "rest = r" by simp
        with skip_ws_Cons_length[OF sk] show ?thesis by simp
      next
        case False
        with p arr sk obtain xs where "parse_elements (d # r) = Ok (xs, rest)"
          by (auto split: outcome.splits)
        with 2(3)[OF arr sk False] have "length rest < length (d # r)" by blast
        with skip_ws_length[of cs] sk show ?thesis by simp
      qed
    next
      case str
      with p obtain t where "parse_chars cs = Ok (t, rest)"
        by (auto split: outcome.splits)
      from parse_chars_length[OF this] show ?thesis by simp
    next
      case other
      show ?thesis
      proof (cases "c = CHR ''-'' \<or> is_digit c")
        case True
        with p other have "parse_number (c # cs) = Ok (v, rest)" by simp
        then show ?thesis by (rule parse_number_length)
      next
        case False
        with p other have "rest = drop 4 (c # cs) \<or> rest = drop 5 (c # cs)"
          by (auto split: if_splits)
        then show ?thesis by auto
      qed
    qed
  qed
next
  case (3 s)
  show ?case
  proof (intro allI impI)
    fix vs rest
    assume p: "parse_elements s = Ok (vs, rest)"
    then obtain v r where pv: "parse_value s = Ok (v, r)"
      by (subst (asm) parse_elements.simps) (auto split: outcome.splits)
    with 3(1) have l1: "length r < length s" by blast
    from p pv obtain d r' where sk: "skip_ws r = d # r'"
      by (subst (asm) parse_elements.simps) (cases "skip_ws r", auto)
    from skip_ws_Cons_length[OF sk] l1 have l2: "length r' < length s" by simp
    show "length rest < length s"
    proof (cases "d = CHR '']''")
      case True
      with p pv sk have "rest = r'" by (subst (asm) parse_elements.simps) simp
      with l2 show ?thesis by simp
    next
      case False
      with p pv sk l2 have c: "d = CHR '',''"
        by (subst (asm) parse_elements.simps) (auto split: if_splits)
      with p pv sk l2 False obtain vs' where "parse_elements r' = Ok (vs', rest)"
        by (subst (asm) parse_elements.simps) (auto split: outcome.splits)
      with 3(2)[OF pv refl sk False c l2] have "length rest < length r'" by blast
      with l2 show ?thesis by simp
    qed
  qed
next
  case (4 s)
  show ?case
  proof (intro allI impI)
    fix kvs rest
    assume p: "parse_members s = Ok (kvs, rest)"
    then obtain q cs where sk: "skip_ws s = q # cs"
      by (subst (asm) parse_members.simps) (cases "skip_ws s", auto)
    from p sk have q: "\<not> q \<noteq> CHR 0x22"
      by (subst (asm) parse_members.simps) (auto split: if_splits)
    from p sk q obtain key r where pc: "parse_chars cs = Ok (key, r)"
      by (subst (asm) parse_members.simps) (auto split: outcome.splits)
    from p sk q pc obtain d r1 where sk1: "skip_ws r = d # r1"
      by (subst (asm) parse_members.simps) (cases "skip_ws r", auto)
    from p sk q pc sk1 have d: "\<not> d \<noteq> CHR '':''"
      by (subst (asm) parse_members.simps) (auto split: if_splits)
    from p sk q pc sk1 d obtain v r2 where pv: "parse_value r1 = Ok (v, r2)"
      by (subst (asm) parse_members.simps) (auto split: outcome.splits)
    from p sk q pc sk1 d pv obtain d' r3 where sk2: "skip_ws r2 = d' # r3"
      by (subst (asm) parse_members.simps) (cases "skip_ws r2", auto)
    from 4(1)[OF sk q pc refl sk1 d] pv have "length r2 < length r1" by blast
    with skip_ws_Cons_length[OF sk2] skip_ws_Cons_length[OF sk1] parse_chars_length[OF pc]
      skip_ws_Cons_length[OF sk]
    have l: "length r3 < length s" by simp
    show "length rest < length s"
    proof (cases "d' = CHR ''}''")
      case True
      with p sk q pc sk1 d pv sk2 have "rest = r3"
        by (subst (asm) parse_members.simps) simp
      with l show ?thesis by simp
    next
      case False
      with p sk q pc sk1 d pv sk2 l have c: "d' = CHR '',''"
        by (subst (asm) parse_members.simps) (auto split: if_splits)
      with p sk q pc sk1 d pv sk2 l False obtain kvs' where "parse_members r3 = Ok (kvs', rest)"
        by (subst (asm) parse_members.simps) (auto split: outcome.splits)
      with 4(2)[OF sk q pc refl sk1 d pv refl sk2 False c l] have "length rest < length r3" by blast
      with l show ?thesis by simp
    qed
  qed
qed


lemma parse_elements_test:
  "parse_value s = Ok (v, rest) \<Longrightarrow> skip_ws rest = d # rest' \<Longrightarrow> length rest' < length s"
  using parse_length(1)[of s] skip_ws_Cons_length[of rest d rest'] by fastforce

lemma parse_members_test:
  assumes "skip_ws s = q # cs" and "parse_chars cs = Ok (key, rest)"
    and "skip_ws rest = d # rest1" and "parse_value rest1 = Ok (v, rest2)"
    and "skip_ws rest2 = d' # rest3"
  shows "length rest3 < length s"
proof -
  from assms(4) have "length rest2 < length rest1" using parse_length(1)[of rest1] by blast
  with skip_ws_Cons_length[OF assms(5)] skip_ws_Cons_length[OF assms(3)]
    parse_chars_length[OF assms(2)] skip_ws_Cons_length[OF assms(1)]
  show ?thesis by simp
qed

subsection \<open>Saving and restoring the session\<close>

lemma keys_differ: "stepKey \<noteq> dataKey"
  by (simp add: stepKey_def dataKey_def)

lemma number_toString_ne: "number_toString x \<noteq> []"
  by (cases x) (simp_all add: number_toString_def digits_ne)

lemma serialize_ne: "serialize v = Some t \<Longrightarrow> t \<noteq> []"
  using serialize_start[of v t] by (simp add: value_start_def)

lemma saveSession_step: "saveSession s D storage stepKey = Some (number_toString s)"
  by (simp add: saveSession_def setItem_def)

lemma saveSession_data: "saveSession s D storage dataKey = Some (text_of (JSON_stringify D))"
  using keys_differ by (auto simp: saveSession_def setItem_def)

lemma restore_saved:
  assumes D: "D \<noteq> JUndefined" and st: "sessionStorage w = saveSession s D storage"
  shows "restoreSession w =
           Ok (w\<lparr> currentStep := s, formData := revive D,
                  pushed := pushed w @ [''/dashboard/business?register=true''] \<rparr>)"
proof -
  from D obtain t where t: "JSON_stringify D = Some t"
    using serialize_None[of D] by (auto simp: JSON_stringify_def)
  then have ne: "t \<noteq> []" using serialize_ne[of D t] by (simp add: JSON_stringify_def)
  have p: "JSON_parse t = Ok (revive D)" using t by (rule JSON_parse_stringify)
  have i: "parseInt (number_toString s) = s" by (rule parseInt_toString)
  have a: "sessionStorage w stepKey = Some (number_toString s)"
    unfolding st by (rule saveSession_step)
  have b: "sessionStorage w dataKey = Some t"
    unfolding st saveSession_data t by (simp add: text_of_def)
  show ?thesis
    unfolding restoreSession_def a b
    by (simp add: truthy_def text_of_def number_toString_ne ne p i)
qed

lemma handleNext_saves:
  assumes "handleNext stepData w = Inr w'"
  shows "sessionStorage w' = saveSession (currentStep w') (formData w') (sessionStorage w)"
  using assms by (auto simp: handleNext_def saveSession_def split: sum.splits)

lemma handleNext_defined:
  assumes "handleNext stepData w = Inr w'"
  shows "formData w' \<noteq> JUndefined"
  using assms by (auto simp: handleNext_def split: sum.splits)

lemma handleNext_then_restore:
  assumes "handleNext stepData w = Inr w'"
  shows "restoreSession (initialWizard (sessionStorage w')) =
           Ok ((initialWizard (sessionStorage w'))
                 \<lparr> currentStep := currentStep w', formData := revive (formData w'),
                   pushed := [''/dashboard/business?register=true''] \<rparr>)"
proof -
  have "sessionStorage (initialWizard (sessionStorage w')) =
          saveSession (currentStep w') (formData w') (sessionStorage w)"
    using handleNext_saves[OF assms] by (simp add: initialWizard_def)
  from restore_saved[OF handleNext_defined[OF assms] this] show ?thesis
    by (simp add: initialWizard_def)
qed

text \<open>After the Review step's \<^verbatim>\<open>onNext\<close> the stored step is still the one that
  \<^verbatim>\<open>handleNext\<close> wrote, and a reload resumes there.\<close>

lemma reviewOnNext_then_restore:
  assumes "handleNext stepData w = Inr w'"
  shows "restoreSession (initialWizard (sessionStorage (reviewOnNext w'))) =
           Ok ((initialWizard (sessionStorage w'))
                 \<lparr> currentStep := currentStep w', formData := revive (formData w'),
                   pushed := [''/dashboard/business?register=true''] \<rparr>)"
  using handleNext_then_restore[OF assms] by (simp add: reviewOnNext_def)

text \<open>Two owners' worth of values that JSON text does not carry: the property whose
  value is \<^verbatim>\<open>undefined\<close> is gone after the round trip, and the \<^verbatim>\<open>File\<close> is an empty
  object.\<close>

lemma revive_owner4:
  "revive owner4 = JObj [(''owner'', JArr [JObj [(''id'', JStr ''1''), (''document'', JObj [])]])]"
  by (simp add: owner4_def spread_def)




end
